theory Spec2Isabelle
  imports Main "HOL-Library.Sublist" "HOL-Library.Char_ord" "HOL-Library.List_Lexorder"
begin

section \<open>Text primitives of the script\<close>

text \<open>
  \<^verbatim>\<open>scripts/extract_keywords.py\<close> works on Python \<^verbatim>\<open>str\<close> values. They are
  modelled as \<^typ>\<open>string\<close>: a \<^typ>\<open>char\<close> is a code point below 256, so the
  model covers the text whose characters lie in that range (ASCII and Latin-1).

  The white space of \<^verbatim>\<open>str.isspace\<close>, \<^verbatim>\<open>str.strip\<close> and the regular expression class
  \<^verbatim>\<open>\s\<close> in that range: tab, line feed, vertical tab, form feed, carriage return, the
  four separators 0x1C..0x1F, the blank, the next-line control 0x85 and the no-break
  space 0xA0.
\<close>

definition isspace :: "char \<Rightarrow> bool" where
  "isspace c \<longleftrightarrow> c \<in> set [CHR 0x09, CHR 0x0A, CHR 0x0B, CHR 0x0C, CHR 0x0D,
                          CHR 0x1C, CHR 0x1D, CHR 0x1E, CHR 0x1F, CHR 0x20,
                          CHR 0x85, CHR 0xA0]"

text \<open>
  The letters of \<^verbatim>\<open>[A-Za-z]\<close>, and the case mappings. \<^verbatim>\<open>str.lower\<close> also maps the
  capital letters 0xC0..0xDE of Latin-1 (0xD7 is the multiplication sign). The script
  upper-cases nothing but the first letter of a match of \<^verbatim>\<open>WORD_RE\<close> and the letters
  of a phrase, all of them ASCII; \<open>upper_char\<close> also maps the small letters
  0xE0..0xFE (0xF7 is the division sign), and leaves alone the three characters whose
  capital forms lie beyond the range (0xB5, 0xDF, 0xFF).
\<close>

definition is_upper :: "char \<Rightarrow> bool" where
  "is_upper c \<longleftrightarrow> CHR ''A'' \<le> c \<and> c \<le> CHR ''Z''"

definition is_lower :: "char \<Rightarrow> bool" where
  "is_lower c \<longleftrightarrow> CHR ''a'' \<le> c \<and> c \<le> CHR ''z''"

definition is_alpha :: "char \<Rightarrow> bool" where
  "is_alpha c \<longleftrightarrow> is_upper c \<or> is_lower c"

definition is_upper_latin :: "char \<Rightarrow> bool" where
  "is_upper_latin c \<longleftrightarrow> CHR 0xC0 \<le> c \<and> c \<le> CHR 0xDE \<and> c \<noteq> CHR 0xD7"

definition is_lower_latin :: "char \<Rightarrow> bool" where
  "is_lower_latin c \<longleftrightarrow> CHR 0xE0 \<le> c \<and> c \<le> CHR 0xFE \<and> c \<noteq> CHR 0xF7"

definition lower_char :: "char \<Rightarrow> char" where
  "lower_char c = (if is_upper c \<or> is_upper_latin c then char_of (of_char c + (32::nat)) else c)"

definition upper_char :: "char \<Rightarrow> char" where
  "upper_char c = (if is_lower c \<or> is_lower_latin c then char_of (of_char c - (32::nat)) else c)"

text \<open>\<^verbatim>\<open>s.lower()\<close>\<close>

definition lower :: "string \<Rightarrow> string" where
  "lower s = map lower_char s"

text \<open>\<^verbatim>\<open>s.capitalize()\<close>: the first character upper-cased, the others lower-cased.\<close>

fun capitalize :: "string \<Rightarrow> string" where
  "capitalize [] = []"
| "capitalize (c # cs) = upper_char c # lower cs"

text \<open>
  \<^verbatim>\<open>s.title()\<close>: a letter that follows a letter is lower-cased, any other letter is
  upper-cased. The flag says whether the previous character was a letter.
\<close>

fun title_from :: "bool \<Rightarrow> string \<Rightarrow> string" where
  "title_from prev [] = []"
| "title_from prev (c # cs) =
     (if prev then lower_char c else upper_char c) # title_from (is_alpha c) cs"

definition title_case :: "string \<Rightarrow> string" where
  "title_case s = title_from False s"

text \<open>\<^verbatim>\<open>s.strip()\<close>\<close>

definition strip :: "string \<Rightarrow> string" where
  "strip s = rev (dropWhile isspace (rev (dropWhile isspace s)))"

text \<open>\<^verbatim>\<open>s.startswith(p)\<close>\<close>

definition startswith :: "string \<Rightarrow> string \<Rightarrow> bool" where
  "startswith p s \<longleftrightarrow> prefix p s"

text \<open>\<^verbatim>\<open>p in s\<close> on strings: \<open>p\<close> occurs in \<open>s\<close> as a contiguous block.\<close>

fun contains :: "string \<Rightarrow> string \<Rightarrow> bool" where
  "contains p [] \<longleftrightarrow> p = []"
| "contains p (c # cs) \<longleftrightarrow> prefix p (c # cs) \<or> contains p cs"

text \<open>\<^verbatim>\<open>sep.join(xs)\<close>\<close>

fun join :: "string \<Rightarrow> string list \<Rightarrow> string" where
  "join sep [] = []"
| "join sep [x] = x"
| "join sep (x # y # ys) = x @ sep @ join sep (y # ys)"

text \<open>
  \<^verbatim>\<open>s.replace(p, r)\<close> for a non-empty \<open>p\<close>: the occurrences of \<open>p\<close> are replaced from
  left to right, the scan resuming behind each replaced occurrence. (For the empty \<open>p\<close>
  Python puts \<open>r\<close> before every character and at the end.)
\<close>

fun replace_from :: "string \<Rightarrow> string \<Rightarrow> nat \<Rightarrow> string \<Rightarrow> string" where
  "replace_from p r k [] = []"
| "replace_from p r (Suc k) (c # cs) = replace_from p r k cs"
| "replace_from p r 0 (c # cs) =
     (if prefix p (c # cs) then r @ replace_from p r (length p - 1) cs
      else c # replace_from p r 0 cs)"

definition replace :: "string \<Rightarrow> string \<Rightarrow> string \<Rightarrow> string" where
  "replace p r s = (if p = [] then r @ concat (map (\<lambda>c. c # r) s) else replace_from p r 0 s)"

text \<open>
  \<^verbatim>\<open>s.splitlines()\<close>: the text is cut at line boundaries (line feed, carriage return,
  a carriage return followed by a line feed counting once, vertical tab, form feed,
  the separators 0x1C..0x1E and the next-line control 0x85); the boundaries are
  dropped and no empty last line is produced. The first argument is the line read so
  far.
\<close>

definition is_linebreak :: "char \<Rightarrow> bool" where
  "is_linebreak c \<longleftrightarrow> c \<in> set [CHR 0x0A, CHR 0x0B, CHR 0x0C, CHR 0x0D, CHR 0x1C, CHR 0x1D, CHR 0x1E,
                              CHR 0x85]"

fun splitlines_from :: "string \<Rightarrow> string \<Rightarrow> string list" where
  "splitlines_from cur [] = (if cur = [] then [] else [cur])"
| "splitlines_from cur [c] = (if is_linebreak c then [cur] else [cur @ [c]])"
| "splitlines_from cur (c # d # cs) =
     (if c = CHR 0x0D \<and> d = CHR 0x0A then cur # splitlines_from [] cs
      else if is_linebreak c then cur # splitlines_from [] (d # cs)
      else splitlines_from (cur @ [c]) (d # cs))"

definition splitlines :: "string \<Rightarrow> string list" where
  "splitlines s = splitlines_from [] s"

text \<open>
  \<^verbatim>\<open>strip_accents\<close> decomposes the text (NFKD) and drops the combining marks. The
  marks of a decomposition all lie beyond the range of \<^typ>\<open>char\<close> and no character
  of the range is one, so \<open>nfkd\<close> gives the decomposition of a character without its
  marks, and \<open>combining\<close> holds of none. (NFKD also reorders marks, among themselves
  only, so the text without marks is the characters' decompositions without marks, one
  after the other.) Four characters are kept as they are, their decompositions having
  a character beyond the range: the micro sign 0xB5 (a Greek mu) and the fractions
  0xBC..0xBE (digits around a fraction slash); like those decompositions they hold no
  letter of \<^verbatim>\<open>[A-Za-z]\<close>, no hyphen and no white space.
\<close>

definition NFKD_TABLE :: "(char \<times> string) list" where
  "NFKD_TABLE =
    [(CHR 0xA0, '' ''), (CHR 0xA8, '' ''), (CHR 0xAA, ''a''), (CHR 0xAF, '' ''),
     (CHR 0xB2, ''2''), (CHR 0xB3, ''3''), (CHR 0xB4, '' ''), (CHR 0xB8, '' ''),
     (CHR 0xB9, ''1''), (CHR 0xBA, ''o''),
     (CHR 0xC0, ''A''), (CHR 0xC1, ''A''), (CHR 0xC2, ''A''), (CHR 0xC3, ''A''), (CHR 0xC4, ''A''), (CHR 0xC5, ''A''),
     (CHR 0xC7, ''C''), (CHR 0xC8, ''E''), (CHR 0xC9, ''E''), (CHR 0xCA, ''E''), (CHR 0xCB, ''E''),
     (CHR 0xCC, ''I''), (CHR 0xCD, ''I''), (CHR 0xCE, ''I''), (CHR 0xCF, ''I''), (CHR 0xD1, ''N''),
     (CHR 0xD2, ''O''), (CHR 0xD3, ''O''), (CHR 0xD4, ''O''), (CHR 0xD5, ''O''), (CHR 0xD6, ''O''),
     (CHR 0xD9, ''U''), (CHR 0xDA, ''U''), (CHR 0xDB, ''U''), (CHR 0xDC, ''U''), (CHR 0xDD, ''Y''),
     (CHR 0xE0, ''a''), (CHR 0xE1, ''a''), (CHR 0xE2, ''a''), (CHR 0xE3, ''a''), (CHR 0xE4, ''a''), (CHR 0xE5, ''a''),
     (CHR 0xE7, ''c''), (CHR 0xE8, ''e''), (CHR 0xE9, ''e''), (CHR 0xEA, ''e''), (CHR 0xEB, ''e''),
     (CHR 0xEC, ''i''), (CHR 0xED, ''i''), (CHR 0xEE, ''i''), (CHR 0xEF, ''i''), (CHR 0xF1, ''n''),
     (CHR 0xF2, ''o''), (CHR 0xF3, ''o''), (CHR 0xF4, ''o''), (CHR 0xF5, ''o''), (CHR 0xF6, ''o''),
     (CHR 0xF9, ''u''), (CHR 0xFA, ''u''), (CHR 0xFB, ''u''), (CHR 0xFC, ''u''), (CHR 0xFD, ''y''), (CHR 0xFF, ''y'')]"

definition nfkd :: "char \<Rightarrow> string" where
  "nfkd c = (case map_of NFKD_TABLE c of Some d \<Rightarrow> d | None \<Rightarrow> [c])"

definition combining :: "char \<Rightarrow> bool" where
  "combining c \<longleftrightarrow> False"

text \<open>
  \<^verbatim>\<open>str(pathlib.Path(p))\<close> on a POSIX system: the parts of the path between slashes,
  without the empty ones and the single dots, joined by one slash, behind the root (one
  slash; two when the path starts with exactly two); a dot when nothing is left.
\<close>

fun split_from :: "char \<Rightarrow> string \<Rightarrow> string \<Rightarrow> string list" where
  "split_from sep cur [] = [cur]"
| "split_from sep cur (c # cs) =
     (if c = sep then cur # split_from sep [] cs else split_from sep (cur @ [c]) cs)"

definition path_str :: "string \<Rightarrow> string" where
  "path_str p =
     (let root = (if prefix ''//'' p \<and> \<not> prefix ''///'' p then ''//''
                  else if prefix ''/'' p then ''/'' else []);
          parts = filter (\<lambda>x. x \<noteq> [] \<and> x \<noteq> ''.'') (split_from (CHR ''/'') [] p);
          s = root @ join ''/'' parts
      in if s = [] then ''.'' else s)"

definition strip_accents :: "string \<Rightarrow> string" where
  "strip_accents text = filter (\<lambda>c. \<not> combining c) (concat (map nfkd text))"


section \<open>The fixed tables\<close>

definition PHRASES :: "string list" where
  "PHRASES =
    [''knowledge graph'', ''knowledge graphs'',
     ''clinical guideline'', ''clinical guidelines'',
     ''semantic web'', ''semantic change'',
     ''machine learning'', ''data sharing'',
     ''explainable ai'', ''hybrid ai'',
     ''ontology'', ''ontologies'',
     ''mapping'', ''mappings'',
     ''recommendation'', ''recommendations'',
     ''e-health'', ''ehealth'']"

text \<open>The normalisation table, a dictionary with distinct keys, as its list of items.\<close>

definition NORM :: "(string \<times> string) list" where
  "NORM =
    [(''knowledge graphs'', ''Knowledge Graphs''),
     (''knowledge graph'', ''Knowledge Graphs''),
     (''clinical guidelines'', ''Clinical Guidelines''),
     (''clinical guideline'', ''Clinical Guidelines''),
     (''semantic web'', ''Semantic Web''),
     (''semantic change'', ''Semantic Change''),
     (''machine learning'', ''Machine Learning''),
     (''data sharing'', ''Data Sharing''),
     (''explainable ai'', ''Explainable AI''),
     (''hybrid ai'', ''Hybrid AI''),
     (''ontologies'', ''Ontology''),
     (''ontology'', ''Ontology''),
     (''mappings'', ''Mapping''),
     (''mapping'', ''Mapping''),
     (''recommendations'', ''Recommendation''),
     (''recommendation'', ''Recommendation''),
     (''e-health'', ''eHealth''),
     (''ehealth'', ''eHealth'')]"

text \<open>\<^verbatim>\<open>NORM.get(k, d)\<close>\<close>

definition NORM_get :: "string \<Rightarrow> string \<Rightarrow> string" where
  "NORM_get k d = (case map_of NORM k of Some v \<Rightarrow> v | None \<Rightarrow> d)"

text \<open>The stop words, a set literal (two of its entries are written twice).\<close>

definition STOPWORDS :: "string set" where
  "STOPWORDS = set
    [''the'', ''and'', ''for'', ''with'', ''into'', ''over'', ''from'', ''using'', ''via'',
     ''a'', ''an'', ''of'', ''on'', ''in'', ''to'', ''by'', ''be'', ''based'', ''towards'',
     ''toward'', ''under'', ''between'', ''their'', ''within'', ''into'', ''case'',
     ''study'', ''short'', ''paper'', ''approach'', ''method'', ''system'', ''framework'',
     ''platform'', ''model'', ''models'', ''multi'', ''multi-level'', ''level'',
     ''evaluation'', ''analysis'', ''support'', ''maintenance'', ''adaptive'', ''dynamic'',
     ''evolving'', ''internal'', ''external'', ''generalizing'', ''general'',
     ''generalized'', ''combining'', ''construction'', ''exploitation'', ''driven'',
     ''driven'', ''formal'', ''formalizing'', ''formalisation'', ''impact'']"

text \<open>
  \<^verbatim>\<open>WORD_RE.findall(s)\<close> for \<^verbatim>\<open>[A-Za-z][A-Za-z\-]{2,}\<close>: at a letter that is followed by
  at least two letters or hyphens, the whole run is one match and the scan resumes
  behind it; anywhere else the scan moves on by one character.
\<close>

definition is_wordchar :: "char \<Rightarrow> bool" where
  "is_wordchar c \<longleftrightarrow> is_alpha c \<or> c = CHR ''-''"

function WORD_RE_findall :: "string \<Rightarrow> string list" where
  "WORD_RE_findall [] = []"
| "WORD_RE_findall (c # cs) =
     (if is_alpha c \<and> 2 \<le> length (takeWhile is_wordchar cs)
      then (c # takeWhile is_wordchar cs) # WORD_RE_findall (dropWhile is_wordchar cs)
      else WORD_RE_findall cs)"
  by pat_completeness auto
termination
  by (relation "measure length") (auto simp: length_dropWhile_le less_Suc_eq_le)

section \<open>The entry segmenter\<close>

text \<open>
  \<^verbatim>\<open>iter_bib_entries\<close> is a generator with three \<^verbatim>\<open>yield\<close> statements. The model
  returns what it yields, each entry with the statement that yielded it: the flush at a
  line starting a record (line 71), the running depth having come down to zero or below
  (line 78), the flush behind the last line (line 82).
\<close>

datatype flush = AtRecordStart | DepthClosed | AtEndOfInput

record seg_state =
  current :: "string list"
  depth :: int
  inside :: bool

definition seg_init :: seg_state where
  "seg_init = \<lparr>current = [], depth = 0, inside = False\<rparr>"

definition brace_delta :: "string \<Rightarrow> int" where
  "brace_delta line = int (count_list line (CHR ''{'')) - int (count_list line (CHR ''}''))"

definition record_start :: "string \<Rightarrow> bool" where
  "record_start line \<longleftrightarrow> startswith ''@'' (strip line)"

text \<open>One turn of the loop over the lines: what is yielded, and the state behind it.\<close>

definition seg_step :: "string \<Rightarrow> seg_state \<Rightarrow> (flush \<times> string) list \<times> seg_state" where
  "seg_step line s =
     (let flushed = (if record_start line \<and> current s \<noteq> []
                     then [(AtRecordStart, join [CHR 0x0A] (current s))] else []);
          current1 = (if record_start line \<and> current s \<noteq> [] then [] else current s);
          inside1 = (record_start line \<or> inside s)
      in if inside1 then
           (let current2 = current1 @ [line];
                depth2 = depth s + brace_delta line
            in if depth2 \<le> 0 \<and> current2 \<noteq> []
               then (flushed @ [(DepthClosed, join [CHR 0x0A] current2)],
                     \<lparr>current = [], depth = depth2, inside = False\<rparr>)
               else (flushed, \<lparr>current = current2, depth = depth2, inside = inside1\<rparr>))
         else (flushed, \<lparr>current = current1, depth = depth s, inside = inside1\<rparr>))"

fun seg_run :: "string list \<Rightarrow> seg_state \<Rightarrow> (flush \<times> string) list \<times> seg_state" where
  "seg_run [] s = ([], s)"
| "seg_run (line # rest) s =
     (case seg_step line s of (out, s1) \<Rightarrow>
        (case seg_run rest s1 of (outs, s2) \<Rightarrow> (out @ outs, s2)))"

definition seg_finish :: "seg_state \<Rightarrow> (flush \<times> string) list" where
  "seg_finish s = (if current s \<noteq> [] then [(AtEndOfInput, join [CHR 0x0A] (current s))] else [])"

definition iter_bib_trace :: "string \<Rightarrow> (flush \<times> string) list" where
  "iter_bib_trace bib_text =
     (case seg_run (splitlines bib_text) seg_init of (out, s) \<Rightarrow> out @ seg_finish s)"

definition iter_bib_entries :: "string \<Rightarrow> string list" where
  "iter_bib_entries bib_text = map snd (iter_bib_trace bib_text)"

text \<open>A line without braces, and the entries of a trace that the depth condition closed.\<close>

definition no_braces :: "string \<Rightarrow> bool" where
  "no_braces line \<longleftrightarrow> count_list line (CHR ''{'') = 0 \<and> count_list line (CHR ''}'') = 0"

definition depth_closed :: "(flush \<times> string) list \<Rightarrow> (flush \<times> string) list" where
  "depth_closed ys = filter (\<lambda>y. fst y = DepthClosed) ys"

text \<open>
  The entries that a run of lines forms when no depth condition intervenes, as lists
  of lines: a line that starts a record flushes the lines collected so far, the end of
  the input flushes the last ones. \<open>joined\<close> makes the entries of them.
\<close>

fun line_groups :: "string list \<Rightarrow> string list \<Rightarrow> (flush \<times> string list) list" where
  "line_groups cur [] = (if cur \<noteq> [] then [(AtEndOfInput, cur)] else [])"
| "line_groups cur (l # ls) =
     (if record_start l \<and> cur \<noteq> [] then (AtRecordStart, cur) # line_groups [l] ls
      else line_groups (cur @ [l]) ls)"

definition joined :: "(flush \<times> string list) list \<Rightarrow> (flush \<times> string) list" where
  "joined gs = map (\<lambda>y. (fst y, join [CHR 0x0A] (snd y))) gs"

section \<open>The title extractor\<close>

text \<open>
  \<^verbatim>\<open>re.search\<close> for \<^verbatim>\<open>title\s*=\s*[{"](.+?)[}"]\s*,?\<close>, ignoring case, the dot matching
  every character. At one position: the five letters, white space, the equals sign,
  white space, an opening brace or a double quote; then group 1 takes one character
  and goes on, as short as it can, up to the next closing brace or double quote. The
  tail \<^verbatim>\<open>\s*,?\<close> matches whatever follows. The search takes the leftmost position with a
  match and returns group 1.
\<close>

definition is_open :: "char \<Rightarrow> bool" where
  "is_open c \<longleftrightarrow> c = CHR ''{'' \<or> c = CHR 0x22"

definition is_close :: "char \<Rightarrow> bool" where
  "is_close c \<longleftrightarrow> c = CHR ''}'' \<or> c = CHR 0x22"

definition match_title_here :: "string \<Rightarrow> string option" where
  "match_title_here s =
     (if lower (take 5 s) = ''title'' then
        (case dropWhile isspace (drop 5 s) of
           [] \<Rightarrow> None
         | e # r1 \<Rightarrow>
             if e = CHR ''='' then
               (case dropWhile isspace r1 of
                  [] \<Rightarrow> None
                | [b] \<Rightarrow> None
                | b # c # r2 \<Rightarrow>
                    if is_open b \<and> list_ex is_close r2
                    then Some (c # takeWhile (\<lambda>x. \<not> is_close x) r2) else None)
             else None)
      else None)"

fun search_title :: "string \<Rightarrow> string option" where
  "search_title [] = None"
| "search_title (c # cs) =
     (case match_title_here (c # cs) of Some g \<Rightarrow> Some g | None \<Rightarrow> search_title cs)"

text \<open>\<^verbatim>\<open>re.sub(r"\s+", " ", s)\<close>; the flag says whether a run of white space is being read.\<close>

fun sub_spaces_from :: "bool \<Rightarrow> string \<Rightarrow> string" where
  "sub_spaces_from run [] = []"
| "sub_spaces_from run (c # cs) =
     (if isspace c then (if run then sub_spaces_from True cs else CHR '' '' # sub_spaces_from True cs)
      else c # sub_spaces_from False cs)"

definition sub_spaces :: "string \<Rightarrow> string" where
  "sub_spaces s = sub_spaces_from False s"

definition extract_title :: "string \<Rightarrow> string option" where
  "extract_title entry =
     (case search_title entry of
        None \<Rightarrow> None
      | Some g \<Rightarrow> Some (sub_spaces (strip (map (\<lambda>c. if c = CHR 0x0A then CHR '' '' else c) g))))"

text \<open>
  A place in the entry where the pattern matches: behind \<open>pre\<close> stand the five
  letters in any case, white space, the equals sign, white space, an opening brace or
  double quote, the group \<open>g\<close> (one character, then characters that close nothing)
  and a closing brace or double quote.
\<close>

definition title_match :: "string \<Rightarrow> string \<Rightarrow> string \<Rightarrow> bool" where
  "title_match pre g entry \<longleftrightarrow>
     (\<exists>kw ws1 ws2 b cl rest.
        entry = pre @ kw @ ws1 @ [CHR ''=''] @ ws2 @ [b] @ g @ [cl] @ rest
        \<and> lower kw = ''title''
        \<and> (\<forall>c\<in>set ws1. isspace c) \<and> (\<forall>c\<in>set ws2. isspace c)
        \<and> is_open b \<and> is_close cl
        \<and> g \<noteq> [] \<and> (\<forall>c\<in>set (tl g). \<not> is_close c))"

text \<open>
  The shape of an extracted title: no white space at either end, no two white space
  characters side by side.
\<close>

definition trimmed :: "string \<Rightarrow> bool" where
  "trimmed t \<longleftrightarrow> t = [] \<or> (\<not> isspace (hd t) \<and> \<not> isspace (last t))"

fun no_space_run :: "string \<Rightarrow> bool" where
  "no_space_run (a # b # cs) \<longleftrightarrow> \<not> (isspace a \<and> isspace b) \<and> no_space_run (b # cs)"
| "no_space_run cs \<longleftrightarrow> True"

text \<open>
  \<^verbatim>\<open>s.split()\<close>: the words of a text, the runs of characters between white space.
  The first argument is the word read so far.
\<close>

fun ws_words_from :: "string \<Rightarrow> string \<Rightarrow> string list" where
  "ws_words_from w [] = (if w = [] then [] else [w])"
| "ws_words_from w (c # cs) =
     (if isspace c then (if w = [] then ws_words_from [] cs else w # ws_words_from [] cs)
      else ws_words_from (w @ [c]) cs)"

definition ws_words :: "string \<Rightarrow> string list" where
  "ws_words s = ws_words_from [] s"

text \<open>A text that does not end in white space.\<close>

definition no_trailing :: "string \<Rightarrow> bool" where
  "no_trailing t \<longleftrightarrow> t = [] \<or> \<not> isspace (last t)"

text \<open>
  A title field of the entry: a place where the pattern matches, the name \<^verbatim>\<open>title\<close>
  standing at the start of a name and not at the end of a longer one (BibTeX ends a
  name at white space and at the characters \<^verbatim>\<open>" # % ' ( ) , = { }\<close>), and the value not
  empty, so that the group is the text between the opener and the next closer.
\<close>

definition is_name_end :: "char \<Rightarrow> bool" where
  "is_name_end c \<longleftrightarrow> isspace c \<or> c \<in> set [CHR 0x22, CHR ''#'', CHR ''%'', CHR 0x27, CHR ''('', CHR '')'',
                                        CHR '','', CHR ''='', CHR ''{'', CHR ''}'']"

definition field_start :: "string \<Rightarrow> bool" where
  "field_start pre \<longleftrightarrow> pre = [] \<or> is_name_end (last pre)"

definition title_field :: "string \<Rightarrow> string \<Rightarrow> string \<Rightarrow> bool" where
  "title_field pre g entry \<longleftrightarrow> title_match pre g entry \<and> field_start pre \<and> \<not> is_close (hd g)"

text \<open>
  Two checks that run over the positions of an entry: no match of the pattern before
  position \<open>n\<close>, and no match of the pattern but at title fields.
\<close>

definition match_free :: "nat \<Rightarrow> string \<Rightarrow> bool" where
  "match_free n entry \<longleftrightarrow> list_all (\<lambda>i. match_title_here (drop i entry) = None) [0..<n]"

definition fields_only :: "string \<Rightarrow> bool" where
  "fields_only entry \<longleftrightarrow>
     list_all (\<lambda>i. case match_title_here (drop i entry) of
                      None \<Rightarrow> True
                    | Some g \<Rightarrow> field_start (take i entry) \<and> \<not> is_close (hd g))
       [0..<Suc (length entry)]"

text \<open>
  The title field as the specification words it, its value delimited by matching
  brace or quote characters: a brace is closed by a brace, a quote by a quote. The
  rest is as in \<open>extract_title\<close>.
\<close>

definition closer_of :: "char \<Rightarrow> char" where
  "closer_of b = (if b = CHR ''{'' then CHR ''}'' else b)"

definition match_paired_here :: "string \<Rightarrow> string option" where
  "match_paired_here s =
     (if lower (take 5 s) = ''title'' then
        (case dropWhile isspace (drop 5 s) of
           [] \<Rightarrow> None
         | e # r1 \<Rightarrow>
             if e = CHR ''='' then
               (case dropWhile isspace r1 of
                  [] \<Rightarrow> None
                | [b] \<Rightarrow> None
                | b # c # r2 \<Rightarrow>
                    if is_open b \<and> list_ex (\<lambda>x. x = closer_of b) r2
                    then Some (c # takeWhile (\<lambda>x. x \<noteq> closer_of b) r2) else None)
             else None)
      else None)"

fun search_paired :: "string \<Rightarrow> string option" where
  "search_paired [] = None"
| "search_paired (c # cs) =
     (case match_paired_here (c # cs) of Some g \<Rightarrow> Some g | None \<Rightarrow> search_paired cs)"

definition title_field_paired :: "string \<Rightarrow> string option" where
  "title_field_paired entry =
     (case search_paired entry of
        None \<Rightarrow> None
      | Some g \<Rightarrow> Some (sub_spaces (strip (map (\<lambda>c. if c = CHR 0x0A then CHR '' '' else c) g))))"

section \<open>The keyword extractor\<close>

definition phrase_scan :: "string \<Rightarrow> string list" where
  "phrase_scan lower_title =
     map (\<lambda>p. NORM_get p (title_case p)) (filter (\<lambda>p. contains p lower_title) PHRASES)"

text \<open>The title lower-cased and without accents, every phrase replaced by a blank.\<close>

definition erase_phrases :: "string \<Rightarrow> string" where
  "erase_phrases title = fold (\<lambda>p s. replace p '' '' s) PHRASES (strip_accents (lower title))"

text \<open>
  The values that the loop of \<^verbatim>\<open>tokenize_remainder\<close> adds to its set, in the order
  of the loop: the words that are no stop word and have four characters or more,
  normalised, unless the lower-cased result is the lower-cased form of a phrase
  keyword of the title.
\<close>

definition token_adds :: "string \<Rightarrow> string list \<Rightarrow> string list" where
  "token_adds title used_phrases =
     filter (\<lambda>norm. lower norm \<notin> set (map lower used_phrases))
       (map (\<lambda>w. NORM_get w (capitalize w))
          (filter (\<lambda>w. w \<notin> STOPWORDS \<and> \<not> length w < 4)
             (WORD_RE_findall (erase_phrases title))))"

text \<open>\<^verbatim>\<open>sorted(tokens)\<close> of the set: its elements in ascending order, each once.\<close>

definition tokenize_remainder :: "string \<Rightarrow> string list \<Rightarrow> string list" where
  "tokenize_remainder title used_phrases =
     sorted_list_of_set (set (token_adds title used_phrases))"

text \<open>
  Python fixes no order in which a set is iterated; the order may differ from run to
  run. \<open>set_iteration enum\<close> says that \<open>enum\<close> lists every finite set, each element
  once, in some order; the functions with the suffix \<open>enum\<close> are the run in which
  \<^verbatim>\<open>sorted\<close> reads the set in the order \<open>enum\<close>.
\<close>

definition set_iteration :: "(string set \<Rightarrow> string list) \<Rightarrow> bool" where
  "set_iteration enum \<longleftrightarrow> (\<forall>S. finite S \<longrightarrow> set (enum S) = S \<and> distinct (enum S))"

definition tokenize_remainder_enum ::
  "(string set \<Rightarrow> string list) \<Rightarrow> string \<Rightarrow> string list \<Rightarrow> string list" where
  "tokenize_remainder_enum enum title used_phrases =
     sort (enum (set (token_adds title used_phrases)))"

record publication =
  title :: string
  keywords_list :: "string list"

text \<open>
  \<^verbatim>\<open>build_publication_keywords\<close> over the extracted titles; \<^verbatim>\<open>if not t: continue\<close>
  skips an absent title and an empty one.
\<close>

fun build_publication_keywords :: "string option list \<Rightarrow> publication list" where
  "build_publication_keywords [] = []"
| "build_publication_keywords (None # titles) = build_publication_keywords titles"
| "build_publication_keywords (Some t # titles) =
     (if t = [] then build_publication_keywords titles
      else (let phrases = phrase_scan (strip_accents (lower t));
                tokens = tokenize_remainder t phrases
            in \<lparr>title = t, keywords_list = phrases @ tokens\<rparr>) # build_publication_keywords titles)"

fun build_publication_keywords_enum ::
  "(string set \<Rightarrow> string list) \<Rightarrow> string option list \<Rightarrow> publication list" where
  "build_publication_keywords_enum enum [] = []"
| "build_publication_keywords_enum enum (None # titles) = build_publication_keywords_enum enum titles"
| "build_publication_keywords_enum enum (Some t # titles) =
     (if t = [] then build_publication_keywords_enum enum titles
      else (let phrases = phrase_scan (strip_accents (lower t));
                tokens = tokenize_remainder_enum enum t phrases
            in \<lparr>title = t, keywords_list = phrases @ tokens\<rparr>)
           # build_publication_keywords_enum enum titles)"

section \<open>The frequency aggregator\<close>

text \<open>\<^verbatim>\<open>freq[k] = freq.get(k,0)+1\<close>\<close>

definition freq_get :: "(string \<rightharpoonup> int) \<Rightarrow> string \<Rightarrow> int" where
  "freq_get freq k = (case freq k of Some n \<Rightarrow> n | None \<Rightarrow> 0)"

definition count_keyword :: "string \<Rightarrow> (string \<rightharpoonup> int) \<Rightarrow> (string \<rightharpoonup> int)" where
  "count_keyword k freq = freq(k \<mapsto> freq_get freq k + 1)"

definition aggregate_keyword_freq :: "publication list \<Rightarrow> (string \<rightharpoonup> int)" where
  "aggregate_keyword_freq pubs = fold (\<lambda>p freq. fold count_keyword (keywords_list p) freq) pubs Map.empty"

text \<open>
  Two ways of counting a keyword over the publications: its occurrences in all the
  keyword lists, and the publications whose keyword list contains it.
\<close>

definition occurrences :: "string \<Rightarrow> publication list \<Rightarrow> nat" where
  "occurrences k pubs = sum_list (map (\<lambda>p. count_list (keywords_list p) k) pubs)"

definition publications_with :: "string \<Rightarrow> publication list \<Rightarrow> nat" where
  "publications_with k pubs = length (filter (\<lambda>p. k \<in> set (keywords_list p)) pubs)"

section \<open>The driver\<close>

record args =
  bib :: string
  out :: string
  min_freq :: int

record payload =
  publications :: "publication list"
  generatedFrom :: string
  totalPublications :: int

datatype error = BibFileNotFound

text \<open>The publications before the filter pass, and the filter pass of lines 147 to 149.\<close>

definition publications_of :: "string \<Rightarrow> publication list" where
  "publications_of text = build_publication_keywords (map extract_title (iter_bib_entries text))"

definition filter_keywords :: "int \<Rightarrow> (string \<rightharpoonup> int) \<Rightarrow> publication list \<Rightarrow> publication list" where
  "filter_keywords m freq pubs =
     (if m > 1
      then map (\<lambda>p. p\<lparr>keywords_list := filter (\<lambda>k. freq_get freq k \<ge> m) (keywords_list p)\<rparr>) pubs
      else pubs)"

text \<open>
  \<^verbatim>\<open>main\<close>, from the parsed arguments and the content of the file at \<^verbatim>\<open>args.bib\<close>
  (\<open>None\<close> when there is no such file) to the payload that is written out, or to the
  exit with status 1. The field \<^verbatim>\<open>generatedFrom\<close> is \<^verbatim>\<open>str(bib_path)\<close>.
\<close>

definition main :: "args \<Rightarrow> string option \<Rightarrow> error + payload" where
  "main a file =
     (case file of
        None \<Rightarrow> Inl BibFileNotFound
      | Some text \<Rightarrow>
          (let pubs = publications_of text;
               freq = aggregate_keyword_freq pubs;
               pubs1 = filter_keywords (min_freq a) freq pubs
           in Inr \<lparr>publications = pubs1, generatedFrom = path_str (bib a),
                   totalPublications = int (length pubs1)\<rparr>))"

definition main_enum :: "(string set \<Rightarrow> string list) \<Rightarrow> args \<Rightarrow> string option \<Rightarrow> error + payload" where
  "main_enum enum a file =
     (case file of
        None \<Rightarrow> Inl BibFileNotFound
      | Some text \<Rightarrow>
          (let pubs = build_publication_keywords_enum enum (map extract_title (iter_bib_entries text));
               freq = aggregate_keyword_freq pubs;
               pubs1 = filter_keywords (min_freq a) freq pubs
           in Inr \<lparr>publications = pubs1, generatedFrom = path_str (bib a),
                   totalPublications = int (length pubs1)\<rparr>))"

section \<open>How the segmenter closes an entry\<close>

lemma no_braces_delta: "no_braces l \<Longrightarrow> brace_delta l = 0"
  by (simp add: no_braces_def brace_delta_def)

lemma seg_step_depth:
  "depth (snd (seg_step l s)) = (if record_start l \<or> inside s then depth s + brace_delta l else depth s)"
  by (simp add: seg_step_def Let_def)

lemma seg_step_positive:
  assumes "0 < depth s + brace_delta l"
  shows "depth_closed (fst (seg_step l s)) = []"
    and "inside s \<Longrightarrow> inside (snd (seg_step l s))"
  using assms by (simp_all add: seg_step_def Let_def depth_closed_def)

lemma seg_step_closes:
  assumes "record_start l \<or> inside s" and "depth s + brace_delta l \<le> 0"
  shows "seg_step l s =
     ((if record_start l \<and> current s \<noteq> [] then [(AtRecordStart, join [CHR 0x0A] (current s))] else [])
        @ [(DepthClosed, join [CHR 0x0A] ((if record_start l \<and> current s \<noteq> [] then [] else current s) @ [l]))],
      \<lparr>current = [], depth = depth s + brace_delta l, inside = False\<rparr>)"
  using assms by (simp add: seg_step_def Let_def)

lemma seg_run_Cons:
  "seg_run (l # ls) s =
     (fst (seg_step l s) @ fst (seg_run ls (snd (seg_step l s))), snd (seg_run ls (snd (seg_step l s))))"
  by (simp split: prod.splits)

lemma seg_run_append:
  "seg_run (ls1 @ ls2) s =
     (fst (seg_run ls1 s) @ fst (seg_run ls2 (snd (seg_run ls1 s))), snd (seg_run ls2 (snd (seg_run ls1 s))))"
  by (induction ls1 arbitrary: s) (simp_all split: prod.splits)

lemma depth_closed_append: "depth_closed (xs @ ys) = depth_closed xs @ depth_closed ys"
  by (simp add: depth_closed_def)

lemma seg_run_positive:
  assumes "inside s"
    and "\<forall>p\<in>set (prefixes ls). 0 < depth s + sum_list (map brace_delta p)"
  shows "depth_closed (fst (seg_run ls s)) = []
       \<and> depth (snd (seg_run ls s)) = depth s + sum_list (map brace_delta ls)
       \<and> inside (snd (seg_run ls s))"
  using assms
proof (induction ls arbitrary: s)
  case Nil
  then show ?case by (simp add: depth_closed_def)
next
  case (Cons l ls)
  let ?s1 = "snd (seg_step l s)"
  have "prefix [l] (l # ls)" by simp
  with Cons.prems(2) have "0 < depth s + sum_list (map brace_delta [l])"
    using in_set_prefixes by blast
  then have pos: "0 < depth s + brace_delta l" by simp
  have d1: "depth ?s1 = depth s + brace_delta l"
    using Cons.prems(1) by (simp add: seg_step_depth)
  have i1: "inside ?s1" using pos Cons.prems(1) by (rule seg_step_positive(2))
  have "\<forall>p\<in>set (prefixes ls). 0 < depth ?s1 + sum_list (map brace_delta p)"
  proof
    fix p assume "p \<in> set (prefixes ls)"
    then have "l # p \<in> set (prefixes (l # ls))" by simp
    with Cons.prems(2) have "0 < depth s + sum_list (map brace_delta (l # p))"
      by blast
    then show "0 < depth ?s1 + sum_list (map brace_delta p)"
      by (simp add: d1 add.assoc)
  qed
  from Cons.IH [OF i1 this] d1 seg_step_positive(1) [OF pos]
  show ?case
    by (simp add: seg_run_Cons depth_closed_append add.assoc del: seg_run.simps)
qed

lemma seg_step_init_no_braces:
  "no_braces l \<Longrightarrow> seg_step l seg_init = (if record_start l then [(DepthClosed, l)] else [], seg_init)"
  by (simp add: seg_step_def seg_init_def Let_def no_braces_delta)

lemma seg_run_init_no_braces:
  "\<forall>l\<in>set ls. no_braces l \<Longrightarrow>
   seg_run ls seg_init = (map (\<lambda>l. (DepthClosed, l)) (filter record_start ls), seg_init)"
  by (induction ls) (simp_all add: seg_step_init_no_braces)

lemma seg_finish_init: "seg_finish seg_init = []"
  by (simp add: seg_finish_def seg_init_def)

lemma seg_run_no_braces_positive:
  "0 < depth s \<Longrightarrow> \<forall>l\<in>set ls. no_braces l \<Longrightarrow>
   depth_closed (fst (seg_run ls s)) = [] \<and> depth (snd (seg_run ls s)) = depth s"
proof (induction ls arbitrary: s)
  case Nil
  show ?case by (simp add: depth_closed_def)
next
  case (Cons l ls)
  from Cons.prems have l: "brace_delta l = 0" by (simp add: no_braces_delta)
  with Cons.prems(1) have pos: "0 < depth s + brace_delta l" by simp
  have d1: "depth (snd (seg_step l s)) = depth s" by (simp add: seg_step_depth l)
  from Cons.prems have "0 < depth (snd (seg_step l s))" "\<forall>l\<in>set ls. no_braces l"
    by (simp_all add: d1)
  from Cons.IH [OF this] seg_step_positive(1) [OF pos] d1 show ?case
    by (simp add: seg_run_Cons depth_closed_append del: seg_run.simps)
qed

lemma seg_step_open:
  assumes "inside s" and "0 < depth s" and "no_braces l"
  shows "seg_step l s =
     (if record_start l \<and> current s \<noteq> [] then [(AtRecordStart, join [CHR 0x0A] (current s))] else [],
      \<lparr>current = (if record_start l \<and> current s \<noteq> [] then [] else current s) @ [l],
       depth = depth s, inside = True\<rparr>)"
  using assms by (simp add: seg_step_def Let_def no_braces_delta)

lemma seg_run_open:
  assumes "inside s" and "0 < depth s" and "\<forall>l\<in>set ls. no_braces l"
  shows "fst (seg_run ls s) @ seg_finish (snd (seg_run ls s)) = joined (line_groups (current s) ls)"
  using assms
proof (induction ls arbitrary: s)
  case Nil
  show ?case by (simp add: seg_finish_def joined_def)
next
  case (Cons l ls)
  let ?s1 = "snd (seg_step l s)"
  from Cons.prems have st: "seg_step l s =
     (if record_start l \<and> current s \<noteq> [] then [(AtRecordStart, join [CHR 0x0A] (current s))] else [],
      \<lparr>current = (if record_start l \<and> current s \<noteq> [] then [] else current s) @ [l],
       depth = depth s, inside = True\<rparr>)"
    by (intro seg_step_open) simp_all
  then have s1: "inside ?s1" "0 < depth ?s1"
    "current ?s1 = (if record_start l \<and> current s \<noteq> [] then [] else current s) @ [l]"
    using Cons.prems(2) by simp_all
  from Cons.prems(3) have "\<forall>l\<in>set ls. no_braces l" by simp
  from Cons.IH [OF s1(1) s1(2) this]
  have ih: "fst (seg_run ls ?s1) @ seg_finish (snd (seg_run ls ?s1)) = joined (line_groups (current ?s1) ls)" .
  show ?case
    by (simp add: seg_run_Cons ih s1(3) del: seg_run.simps) (simp add: st joined_def)
qed

lemma line_groups_lines: "concat (map snd (line_groups cur ls)) = cur @ ls"
  by (induction ls arbitrary: cur) simp_all

lemma seg_step_inside_or_closed:
  "inside s \<or> depth s \<le> 0 \<Longrightarrow> inside (snd (seg_step l s)) \<or> depth (snd (seg_step l s)) \<le> 0"
  by (auto simp: seg_step_def Let_def)

lemma seg_run_inside_or_closed:
  "inside s \<or> depth s \<le> 0 \<Longrightarrow> inside (snd (seg_run ls s)) \<or> depth (snd (seg_run ls s)) \<le> 0"
proof (induction ls arbitrary: s)
  case Nil
  then show ?case by simp
next
  case (Cons l ls)
  from Cons.IH [OF seg_step_inside_or_closed [OF Cons.prems]]
  show ?case by (simp add: seg_run_Cons del: seg_run.simps)
qed

lemma iter_bib_trace_split:
  "splitlines text = pre @ ls \<Longrightarrow>
   iter_bib_trace text =
     fst (seg_run pre seg_init)
       @ (fst (seg_run ls (snd (seg_run pre seg_init)))
            @ seg_finish (snd (seg_run ls (snd (seg_run pre seg_init)))))"
  by (simp add: iter_bib_trace_def seg_run_append split: prod.splits)


text \<open>
  C4, as amended: a line without braces leaves the running depth as it is. A line
  that starts a record and has no braces is closed by the depth condition at once, as
  an entry of that one line, whenever the running depth is zero or below there; so in
  a text without any brace every entry is one record-start line, closed by the depth
  condition, and the lines between them are dropped. Only where the running depth is
  strictly positive (left so by an earlier entry) do lines without braces never close
  by the depth condition: there every one of them, with the lines already collected,
  goes into an entry that is flushed by the next record-start line or at the end of
  the input, up to the end of the text.
\<close>

theorem brace_free_entries:
  "(record_start l \<and> no_braces l \<and> depth s \<le> 0 \<longrightarrow>
      seg_step l s =
        ((if current s \<noteq> [] then [(AtRecordStart, join [CHR 0x0A] (current s))] else [])
           @ [(DepthClosed, l)],
         \<lparr>current = [], depth = depth s, inside = False\<rparr>))
   \<and> ((\<forall>l\<in>set (splitlines text). no_braces l) \<longrightarrow>
        iter_bib_trace text = map (\<lambda>l. (DepthClosed, l)) (filter record_start (splitlines text)))
   \<and> (inside s' \<and> 0 < depth s' \<and> (\<forall>l\<in>set ls. no_braces l) \<longrightarrow>
        fst (seg_run ls s') @ seg_finish (snd (seg_run ls s')) = joined (line_groups (current s') ls)
        \<and> concat (map snd (line_groups (current s') ls)) = current s' @ ls
        \<and> depth_closed (fst (seg_run ls s')) = [] \<and> depth (snd (seg_run ls s')) = depth s')
   \<and> (splitlines text' = pre @ ls' \<and> 0 < depth (snd (seg_run pre seg_init))
        \<and> (\<forall>l\<in>set ls'. no_braces l) \<longrightarrow>
        iter_bib_trace text' =
          fst (seg_run pre seg_init)
            @ joined (line_groups (current (snd (seg_run pre seg_init))) ls'))
   \<and> (no_braces l' \<longrightarrow> depth (snd (seg_step l' s'')) = depth s'')"
proof (intro conjI impI)
  assume a: "record_start l \<and> no_braces l \<and> depth s \<le> 0"
  then have "depth s + brace_delta l \<le> 0" "record_start l \<or> inside s"
    by (simp_all add: no_braces_delta)
  from seg_step_closes [OF this(2) this(1)] a
  show "seg_step l s =
        ((if current s \<noteq> [] then [(AtRecordStart, join [CHR 0x0A] (current s))] else [])
           @ [(DepthClosed, l)],
         \<lparr>current = [], depth = depth s, inside = False\<rparr>)"
    by (simp add: no_braces_delta)
next
  assume "\<forall>l\<in>set (splitlines text). no_braces l"
  then show "iter_bib_trace text = map (\<lambda>l. (DepthClosed, l)) (filter record_start (splitlines text))"
    by (simp add: iter_bib_trace_def seg_run_init_no_braces seg_finish_init)
next
  assume a: "inside s' \<and> 0 < depth s' \<and> (\<forall>l\<in>set ls. no_braces l)"
  then show "fst (seg_run ls s') @ seg_finish (snd (seg_run ls s')) = joined (line_groups (current s') ls)"
    by (intro seg_run_open) simp_all
  show "concat (map snd (line_groups (current s') ls)) = current s' @ ls"
    by (rule line_groups_lines)
  from a show "depth_closed (fst (seg_run ls s')) = []"
    using seg_run_no_braces_positive by blast
  from a show "depth (snd (seg_run ls s')) = depth s'"
    using seg_run_no_braces_positive by blast
next
  let ?s = "snd (seg_run pre seg_init)"
  assume a: "splitlines text' = pre @ ls' \<and> 0 < depth ?s \<and> (\<forall>l\<in>set ls'. no_braces l)"
  have "inside seg_init \<or> depth seg_init \<le> 0" by (simp add: seg_init_def)
  then have "inside ?s \<or> depth ?s \<le> 0" by (rule seg_run_inside_or_closed)
  with a have i: "inside ?s" by simp
  from a have "fst (seg_run ls' ?s) @ seg_finish (snd (seg_run ls' ?s)) = joined (line_groups (current ?s) ls')"
    by (intro seg_run_open i) simp_all
  with a show "iter_bib_trace text' = fst (seg_run pre seg_init) @ joined (line_groups (current ?s) ls')"
    by (simp add: iter_bib_trace_split)
next
  assume "no_braces l'"
  then show "depth (snd (seg_step l' s'')) = depth s''"
    by (simp add: seg_step_depth no_braces_delta)
qed

theorem brace_free_entries_witness:
  "seg_step ''@comment hello'' seg_init = ([(DepthClosed, ''@comment hello'')], seg_init)
   \<and> iter_bib_trace (''@comment hello'' @ [CHR 0x0A] @ ''@string abc'') =
       [(DepthClosed, ''@comment hello''), (DepthClosed, ''@string abc'')]
   \<and> fst (seg_run [''note = x'', ''@b'', ''text''] \<lparr>current = [''@a{''], depth = 1, inside = True\<rparr>)
       @ seg_finish (snd (seg_run [''note = x'', ''@b'', ''text'']
           \<lparr>current = [''@a{''], depth = 1, inside = True\<rparr>)) =
       [(AtRecordStart, ''@a{'' @ [CHR 0x0A] @ ''note = x''), (AtEndOfInput, ''@b'' @ [CHR 0x0A] @ ''text'')]
   \<and> line_groups [''@a{''] [''note = x'', ''@b'', ''text''] =
       [(AtRecordStart, [''@a{'', ''note = x'']), (AtEndOfInput, [''@b'', ''text''])]
   \<and> iter_bib_trace (''@a{'' @ [CHR 0x0A] @ ''note = x'' @ [CHR 0x0A] @ ''@b'' @ [CHR 0x0A] @ ''text'') =
       [(AtRecordStart, ''@a{'' @ [CHR 0x0A] @ ''note = x''), (AtEndOfInput, ''@b'' @ [CHR 0x0A] @ ''text'')]
   \<and> depth (snd (seg_step ''note = x'' \<lparr>current = [''@a{''], depth = 1, inside = True\<rparr>)) = 1"
proof -
  let ?l = "''@comment hello''"
  let ?t = "''@comment hello'' @ [CHR 0x0A] @ ''@string abc''"
  let ?s = "\<lparr>current = [''@a{''], depth = 1, inside = True\<rparr>"
  let ?ls = "[''note = x'', ''@b'', ''text'']"
  let ?t' = "''@a{'' @ [CHR 0x0A] @ ''note = x'' @ [CHR 0x0A] @ ''@b'' @ [CHR 0x0A] @ ''text''"
  note T = brace_free_entries [of ?l seg_init ?t ?s ?ls ?t' "[''@a{'']" ?ls "''note = x''" ?s]
  have h1: "record_start ?l \<and> no_braces ?l \<and> depth seg_init \<le> 0"
    by code_simp
  have h2: "\<forall>l\<in>set (splitlines ?t). no_braces l"
    by code_simp
  have h3: "inside ?s \<and> 0 < depth ?s \<and> (\<forall>l\<in>set ?ls. no_braces l)"
    by code_simp
  have h4: "splitlines ?t' = [''@a{''] @ ?ls \<and> 0 < depth (snd (seg_run [''@a{''] seg_init))
        \<and> (\<forall>l\<in>set ?ls. no_braces l)"
    by code_simp
  have e1: "((if current seg_init \<noteq> [] then [(AtRecordStart, join [CHR 0x0A] (current seg_init))] else [])
           @ [(DepthClosed, ?l)],
         \<lparr>current = [], depth = depth seg_init, inside = False\<rparr>) = ([(DepthClosed, ?l)], seg_init)"
    by code_simp
  have e2: "map (\<lambda>l. (DepthClosed, l)) (filter record_start (splitlines ?t)) =
      [(DepthClosed, ''@comment hello''), (DepthClosed, ''@string abc'')]"
    by code_simp
  have e3: "joined (line_groups (current ?s) ?ls) =
      [(AtRecordStart, ''@a{'' @ [CHR 0x0A] @ ''note = x''), (AtEndOfInput, ''@b'' @ [CHR 0x0A] @ ''text'')]"
    by code_simp
  have e4: "fst (seg_run [''@a{''] seg_init)
            @ joined (line_groups (current (snd (seg_run [''@a{''] seg_init))) ?ls) =
      [(AtRecordStart, ''@a{'' @ [CHR 0x0A] @ ''note = x''), (AtEndOfInput, ''@b'' @ [CHR 0x0A] @ ''text'')]"
    by code_simp
  have e5: "line_groups [''@a{''] ?ls =
       [(AtRecordStart, [''@a{'', ''note = x'']), (AtEndOfInput, [''@b'', ''text''])]"
    by code_simp
  have c1: "seg_step ?l seg_init = ([(DepthClosed, ?l)], seg_init)"
    using T [THEN conjunct1, THEN mp, OF h1] e1 by (rule trans)
  have c2: "iter_bib_trace ?t = [(DepthClosed, ''@comment hello''), (DepthClosed, ''@string abc'')]"
    using T [THEN conjunct2, THEN conjunct1, THEN mp, OF h2] e2 by (rule trans)
  have c3: "fst (seg_run ?ls ?s) @ seg_finish (snd (seg_run ?ls ?s)) =
      [(AtRecordStart, ''@a{'' @ [CHR 0x0A] @ ''note = x''), (AtEndOfInput, ''@b'' @ [CHR 0x0A] @ ''text'')]"
    using T [THEN conjunct2, THEN conjunct2, THEN conjunct1, THEN mp, OF h3, THEN conjunct1] e3
    by (rule trans)
  have c4: "iter_bib_trace ?t' =
      [(AtRecordStart, ''@a{'' @ [CHR 0x0A] @ ''note = x''), (AtEndOfInput, ''@b'' @ [CHR 0x0A] @ ''text'')]"
    using T [THEN conjunct2, THEN conjunct2, THEN conjunct2, THEN conjunct1, THEN mp, OF h4] e4
    by (rule trans)
  have h5: "no_braces ''note = x''" by code_simp
  have e6: "depth ?s = 1" by simp
  have c5: "depth (snd (seg_step ''note = x'' ?s)) = 1"
    using T [THEN conjunct2, THEN conjunct2, THEN conjunct2, THEN conjunct2, THEN mp, OF h5] e6
    by (rule trans)
  from c1 c2 c3 e5 c4 c5 show ?thesis by (intro conjI)
qed

text \<open>
  The claim as written fails on a record-start line without braces at the head of a
  text: the depth condition closes it at once, and the line behind it is dropped.
\<close>

theorem brace_free_entry_counterexample:
  "no_braces ''@comment hello'' \<and> no_braces ''more text''
   \<and> iter_bib_trace (''@comment hello'' @ [CHR 0x0A] @ ''more text'') = [(DepthClosed, ''@comment hello'')]"
  by code_simp

text \<open>
  C10, as amended: the depth counter is never reset; every accumulated line adds its
  opening braces less its closing braces to it, whatever is yielded meanwhile. Once
  the segmenter is inside with a strictly positive depth, no entry is closed by the
  depth condition for as long as the running depth stays strictly positive, and the
  entries are flushed by record-start lines and the end of the input only; an
  accumulated line that takes the running depth to zero or below closes its entry by
  the depth condition.
\<close>

theorem depth_not_reset:
  "depth (snd (seg_step l s)) = (if record_start l \<or> inside s then depth s + brace_delta l else depth s)
   \<and> (inside s1 \<and> (\<forall>p\<in>set (prefixes ls). 0 < depth s1 + sum_list (map brace_delta p)) \<longrightarrow>
        depth_closed (fst (seg_run ls s1)) = []
        \<and> depth (snd (seg_run ls s1)) = depth s1 + sum_list (map brace_delta ls))
   \<and> ((record_start l2 \<or> inside s2) \<and> depth s2 + brace_delta l2 \<le> 0 \<longrightarrow>
        depth_closed (fst (seg_step l2 s2)) \<noteq> [])"
proof (intro conjI impI)
  show "depth (snd (seg_step l s)) = (if record_start l \<or> inside s then depth s + brace_delta l else depth s)"
    by (rule seg_step_depth)
next
  assume "inside s1 \<and> (\<forall>p\<in>set (prefixes ls). 0 < depth s1 + sum_list (map brace_delta p))"
  then show "depth_closed (fst (seg_run ls s1)) = []"
    using seg_run_positive by blast
next
  assume "inside s1 \<and> (\<forall>p\<in>set (prefixes ls). 0 < depth s1 + sum_list (map brace_delta p))"
  then show "depth (snd (seg_run ls s1)) = depth s1 + sum_list (map brace_delta ls)"
    using seg_run_positive by blast
next
  assume a: "(record_start l2 \<or> inside s2) \<and> depth s2 + brace_delta l2 \<le> 0"
  then have "record_start l2 \<or> inside s2" "depth s2 + brace_delta l2 \<le> 0" by simp_all
  from seg_step_closes [OF this] show "depth_closed (fst (seg_step l2 s2)) \<noteq> []"
    by (simp add: depth_closed_def)
qed

theorem depth_not_reset_witness:
  "depth (snd (seg_step ''@a{'' seg_init)) = 1
   \<and> seg_run [''@b{{x}'', ''y}''] \<lparr>current = [''@a{''], depth = 1, inside = True\<rparr> =
       ([(AtRecordStart, ''@a{'')], \<lparr>current = [''@b{{x}'', ''y}''], depth = 1, inside = True\<rparr>)
   \<and> depth_closed (fst (seg_run [''@b{{x}'', ''y}''] \<lparr>current = [''@a{''], depth = 1, inside = True\<rparr>)) = []
   \<and> depth_closed (fst (seg_step ''@b{x}}'' \<lparr>current = [''@a{''], depth = 1, inside = True\<rparr>)) \<noteq> []"
proof -
  let ?s = "\<lparr>current = [''@a{''], depth = 1, inside = True\<rparr>"
  let ?ls = "[''@b{{x}'', ''y}'']"
  have h1: "inside ?s \<and> (\<forall>p\<in>set (prefixes ?ls). 0 < depth ?s + sum_list (map brace_delta p))"
    by code_simp
  have h2: "(record_start ''@b{x}}'' \<or> inside ?s) \<and> depth ?s + brace_delta ''@b{x}}'' \<le> 0"
    by code_simp
  have e1: "record_start ''@a{'' \<and> brace_delta ''@a{'' = 1 \<and> depth seg_init = 0"
    by code_simp
  have e2: "seg_run ?ls ?s = ([(AtRecordStart, ''@a{'')], \<lparr>current = ?ls, depth = 1, inside = True\<rparr>)"
    by code_simp
  from depth_not_reset [of "''@a{''" seg_init ?s ?ls "''@b{x}}''" ?s] h1 h2 e1 e2
  show ?thesis by simp
qed

text \<open>
  The claim as written fails where a later entry has closing braces in surplus: the
  entry \<^verbatim>\<open>@a{\<close> is yielded with the running depth 1, and the next entry is closed by
  the depth condition.
\<close>

theorem depth_closes_later_entry_counterexample:
  "seg_step ''@a{'' seg_init = ([], \<lparr>current = [''@a{''], depth = 1, inside = True\<rparr>)
   \<and> iter_bib_trace (''@a{'' @ [CHR 0x0A] @ ''@b{x}}'') =
       [(AtRecordStart, ''@a{''), (DepthClosed, ''@b{x}}'')]"
  by code_simp


section \<open>What the title extractor returns\<close>

lemma not_space_equals: "\<not> isspace (CHR ''='')"
  by (simp add: isspace_def)

lemma open_not_space: "is_open b \<Longrightarrow> \<not> isspace b"
  by (auto simp: is_open_def isspace_def)

lemma match_title_here_sound:
  assumes "match_title_here s = Some g"
  shows "title_match [] g s"
proof -
  from assms have kw: "lower (take 5 s) = ''title''"
    by (simp add: match_title_here_def split: if_splits)
  from assms kw obtain r1 where r1: "dropWhile isspace (drop 5 s) = CHR ''='' # r1"
    by (auto simp: match_title_here_def split: if_splits list.splits)
  from assms kw r1 obtain b c r2 where r2: "dropWhile isspace r1 = b # c # r2"
    and b: "is_open b" and ex: "list_ex is_close r2"
    and g: "g = c # takeWhile (\<lambda>x. \<not> is_close x) r2"
    by (auto simp: match_title_here_def split: if_splits list.splits)
  let ?ws1 = "takeWhile isspace (drop 5 s)"
  let ?ws2 = "takeWhile isspace r1"
  let ?d = "dropWhile (\<lambda>x. \<not> is_close x) r2"
  from ex have d: "?d \<noteq> []" by (simp add: list_ex_iff)
  then have cl: "is_close (hd ?d)" using hd_dropWhile [of "\<lambda>x. \<not> is_close x" r2] by simp
  have "s = take 5 s @ drop 5 s" by simp
  also have "drop 5 s = ?ws1 @ CHR ''='' # r1"
    using takeWhile_dropWhile_id [of isspace "drop 5 s"] r1 by simp
  also have "r1 = ?ws2 @ b # c # r2"
    using takeWhile_dropWhile_id [of isspace r1] r2 by simp
  also have "r2 = takeWhile (\<lambda>x. \<not> is_close x) r2 @ hd ?d # tl ?d"
    using takeWhile_dropWhile_id [of "\<lambda>x. \<not> is_close x" r2] d by simp
  finally have s: "s = [] @ take 5 s @ ?ws1 @ [CHR ''=''] @ ?ws2 @ [b] @ g @ [hd ?d] @ tl ?d"
    by (simp add: g)
  have w1: "\<forall>c\<in>set ?ws1. isspace c" by (auto dest: set_takeWhileD)
  have w2: "\<forall>c\<in>set ?ws2. isspace c" by (auto dest: set_takeWhileD)
  have g2: "g \<noteq> [] \<and> (\<forall>c\<in>set (tl g). \<not> is_close c)"
    by (auto simp: g dest: set_takeWhileD)
  from s kw w1 w2 b cl g2 show ?thesis
    unfolding title_match_def by blast
qed

lemma lower_title_length: "lower kw = ''title'' \<Longrightarrow> length kw = 5"
proof -
  assume "lower kw = ''title''"
  then have "length (lower kw) = length ''title''" by simp
  then show ?thesis by (simp add: lower_def)
qed

lemma match_title_here_complete:
  assumes "title_match [] g s"
  shows "match_title_here s = Some g"
proof -
  from assms obtain kw ws1 ws2 b cl rest where
    s: "s = kw @ ws1 @ [CHR ''=''] @ ws2 @ [b] @ g @ [cl] @ rest"
    and kw: "lower kw = ''title''"
    and w1: "\<forall>c\<in>set ws1. isspace c" and w2: "\<forall>c\<in>set ws2. isspace c"
    and b: "is_open b" and cl: "is_close cl"
    and g: "g \<noteq> []" and nc: "\<forall>c\<in>set (tl g). \<not> is_close c"
    unfolding title_match_def by auto
  from g obtain c g' where g': "g = c # g'" by (cases g) auto
  have len: "length kw = 5" using kw by (rule lower_title_length)
  have t5: "take 5 s = kw" and d5: "drop 5 s = ws1 @ CHR ''='' # (ws2 @ b # c # g' @ cl # rest)"
    using len by (simp_all add: s g')
  have dw1: "dropWhile isspace (drop 5 s) = CHR ''='' # (ws2 @ b # c # g' @ cl # rest)"
    using w1 not_space_equals by (simp add: d5)
  have dw2: "dropWhile isspace (ws2 @ b # c # g' @ cl # rest) = b # c # (g' @ cl # rest)"
    using w2 open_not_space [OF b] by simp
  have ex: "list_ex is_close (g' @ cl # rest)"
    using cl by (simp add: list_ex_iff)
  have tw: "takeWhile (\<lambda>x. \<not> is_close x) (g' @ cl # rest) = g'"
    using nc cl by (simp add: g' takeWhile_tail)
  show ?thesis
    using cl by (simp add: match_title_here_def t5 kw dw1 dw2 b tw g')
qed

lemma match_title_here_iff: "match_title_here s = Some g \<longleftrightarrow> title_match [] g s"
  using match_title_here_sound match_title_here_complete by blast


lemma title_match_prefix:
  "title_match pre g e \<longleftrightarrow> (\<exists>suf. e = pre @ suf \<and> title_match [] g suf)"
proof
  assume "title_match pre g e"
  then obtain kw ws1 ws2 b cl rest where
    e: "e = pre @ kw @ ws1 @ [CHR ''=''] @ ws2 @ [b] @ g @ [cl] @ rest"
    and r: "lower kw = ''title''" "\<forall>c\<in>set ws1. isspace c" "\<forall>c\<in>set ws2. isspace c"
      "is_open b" "is_close cl" "g \<noteq> []" "\<forall>c\<in>set (tl g). \<not> is_close c"
    unfolding title_match_def by blast
  let ?suf = "kw @ ws1 @ [CHR ''=''] @ ws2 @ [b] @ g @ [cl] @ rest"
  have "?suf = [] @ kw @ ws1 @ [CHR ''=''] @ ws2 @ [b] @ g @ [cl] @ rest" by simp
  with r have "title_match [] g ?suf" unfolding title_match_def by blast
  with e show "\<exists>suf. e = pre @ suf \<and> title_match [] g suf" by blast
next
  assume "\<exists>suf. e = pre @ suf \<and> title_match [] g suf"
  then obtain suf where e: "e = pre @ suf" and m: "title_match [] g suf" by blast
  from m obtain kw ws1 ws2 b cl rest where
    s: "suf = [] @ kw @ ws1 @ [CHR ''=''] @ ws2 @ [b] @ g @ [cl] @ rest"
    and r: "lower kw = ''title''" "\<forall>c\<in>set ws1. isspace c" "\<forall>c\<in>set ws2. isspace c"
      "is_open b" "is_close cl" "g \<noteq> []" "\<forall>c\<in>set (tl g). \<not> is_close c"
    unfolding title_match_def by blast
  from e s have "e = pre @ kw @ ws1 @ [CHR ''=''] @ ws2 @ [b] @ g @ [cl] @ rest" by simp
  with r show "title_match pre g e" unfolding title_match_def by blast
qed


lemma title_match_Nil: "\<not> title_match pre g []"
  unfolding title_match_def by simp

lemma title_match_Cons:
  "title_match (x # p) g (c # cs) \<longleftrightarrow> x = c \<and> title_match p g cs"
proof -
  have "title_match (x # p) g (c # cs) \<longleftrightarrow> (\<exists>suf. c # cs = (x # p) @ suf \<and> title_match [] g suf)"
    by (rule title_match_prefix)
  also have "\<dots> \<longleftrightarrow> x = c \<and> (\<exists>suf. cs = p @ suf \<and> title_match [] g suf)"
    by auto
  also have "\<dots> \<longleftrightarrow> x = c \<and> title_match p g cs"
    using title_match_prefix [of p g cs] by simp
  finally show ?thesis .
qed

lemma search_title_None: "search_title s = None \<Longrightarrow> \<not> title_match pre g s"
proof (induction s arbitrary: pre)
  case Nil
  show ?case by (rule title_match_Nil)
next
  case (Cons c cs)
  from Cons.prems have here: "match_title_here (c # cs) = None" and rest: "search_title cs = None"
    by (simp_all split: option.splits)
  have "\<not> title_match [] g (c # cs)"
  proof
    assume "title_match [] g (c # cs)"
    then have "match_title_here (c # cs) = Some g" by (rule match_title_here_complete)
    with here show False by simp
  qed
  moreover from Cons.IH [OF rest] have "\<And>p. \<not> title_match p g cs" .
  ultimately show ?case by (cases pre) (simp_all add: title_match_Cons)
qed

lemma search_title_Some:
  "search_title s = Some g \<Longrightarrow>
   \<exists>pre. title_match pre g s
     \<and> (\<forall>pre' g'. title_match pre' g' s \<longrightarrow> length pre \<le> length pre' \<and> (pre' = pre \<longrightarrow> g' = g))"
proof (induction s)
  case Nil
  then show ?case by simp
next
  case (Cons c cs)
  show ?case
  proof (cases "match_title_here (c # cs)")
    case (Some g0)
    with Cons.prems have g0: "g0 = g" by simp
    with Some have m: "title_match [] g (c # cs)" by (simp add: match_title_here_sound)
    have u: "g' = g" if "title_match [] g' (c # cs)" for g'
    proof -
      from that have "match_title_here (c # cs) = Some g'" by (rule match_title_here_complete)
      with Some g0 show ?thesis by simp
    qed
    have "\<forall>pre' g'. title_match pre' g' (c # cs) \<longrightarrow>
            length ([]::string) \<le> length pre' \<and> (pre' = [] \<longrightarrow> g' = g)"
    proof (intro allI impI conjI)
      fix pre' g' assume "title_match pre' g' (c # cs)" and "pre' = []"
      then show "g' = g" using u by simp
    qed simp
    with m have "title_match [] g (c # cs) \<and> (\<forall>pre' g'. title_match pre' g' (c # cs) \<longrightarrow>
            length ([]::string) \<le> length pre' \<and> (pre' = [] \<longrightarrow> g' = g))"
      by (rule conjI)
    then show ?thesis by (rule exI)
  next
    case None
    with Cons.prems have "search_title cs = Some g" by simp
    from Cons.IH [OF this] obtain pre0 where p0: "title_match pre0 g cs"
      and least: "\<forall>pre' g'. title_match pre' g' cs \<longrightarrow>
                    length pre0 \<le> length pre' \<and> (pre' = pre0 \<longrightarrow> g' = g)"
      by (elim exE conjE)
    have no: "\<not> title_match [] g' (c # cs)" for g'
    proof
      assume "title_match [] g' (c # cs)"
      then have "match_title_here (c # cs) = Some g'" by (rule match_title_here_complete)
      with None show False by simp
    qed
    have here: "title_match (c # pre0) g (c # cs)"
      using p0 by (simp add: title_match_Cons)
    have "\<forall>pre' g'. title_match pre' g' (c # cs) \<longrightarrow>
            length (c # pre0) \<le> length pre' \<and> (pre' = c # pre0 \<longrightarrow> g' = g)"
    proof (intro allI impI)
      fix pre' g' assume tm: "title_match pre' g' (c # cs)"
      show "length (c # pre0) \<le> length pre' \<and> (pre' = c # pre0 \<longrightarrow> g' = g)"
      proof (cases pre')
        case Nil
        with tm no show ?thesis by simp
      next
        case (Cons x p)
        with tm have x: "x = c" and p: "title_match p g' cs" by (simp_all add: title_match_Cons)
        from least p have "length pre0 \<le> length p \<and> (p = pre0 \<longrightarrow> g' = g)" by blast
        with Cons x show ?thesis by simp
      qed
    qed
    with here have "title_match (c # pre0) g (c # cs) \<and> (\<forall>pre' g'. title_match pre' g' (c # cs) \<longrightarrow>
            length (c # pre0) \<le> length pre' \<and> (pre' = c # pre0 \<longrightarrow> g' = g))"
      by (rule conjI)
    then show ?thesis by (rule exI)
  qed
qed


lemma last_dropWhile_keep: "dropWhile P xs \<noteq> [] \<Longrightarrow> last (dropWhile P xs) = last xs"
  by (induction xs) (auto split: if_splits)

lemma trimmed_strip: "trimmed (strip s)"
proof -
  let ?u = "dropWhile isspace s"
  let ?v = "dropWhile isspace (rev ?u)"
  show ?thesis
  proof (cases "?v = []")
    case True
    then show ?thesis by (simp add: trimmed_def strip_def)
  next
    case False
    have u: "?u \<noteq> []"
    proof
      assume "?u = []"
      then have "?v = []" by (simp del: dropWhile_eq_Nil_conv)
      with False show False by (simp del: dropWhile_eq_Nil_conv)
    qed
    from False have "\<not> isspace (hd ?v)" by (rule hd_dropWhile)
    then have l: "\<not> isspace (last (rev ?v))" using False by (simp add: last_rev)
    from False have "last ?v = last (rev ?u)" by (rule last_dropWhile_keep)
    also have "\<dots> = hd ?u" using u by (simp add: last_rev)
    finally have "hd (rev ?v) = hd ?u" using False by (simp add: hd_rev)
    moreover from u have "\<not> isspace (hd ?u)" by (rule hd_dropWhile)
    ultimately have "\<not> isspace (hd (rev ?v))" by simp
    with l show ?thesis by (simp add: trimmed_def strip_def)
  qed
qed

lemma sub_spaces_from_blank:
  "c \<in> set (sub_spaces_from r s) \<Longrightarrow> isspace c \<Longrightarrow> c = CHR '' ''"
  by (induction s arbitrary: r) (auto split: if_splits)

lemma sub_spaces_from_head:
  "sub_spaces_from r s = a # as \<Longrightarrow> isspace a \<Longrightarrow> \<not> r \<and> s \<noteq> [] \<and> isspace (hd s)"
  by (induction s arbitrary: r) (auto split: if_splits)

lemma sub_spaces_from_run: "no_space_run (sub_spaces_from r s)"
proof (induction s arbitrary: r)
  case Nil
  show ?case by simp
next
  case (Cons c cs)
  show ?case
  proof (cases "isspace c")
    case True
    have "no_space_run (CHR '' '' # sub_spaces_from True cs)"
    proof (cases "sub_spaces_from True cs")
      case Nil
      then show ?thesis by simp
    next
      case (Cons a as)
      then have "\<not> isspace a" using sub_spaces_from_head by blast
      with Cons Cons.IH [of True] show ?thesis by simp
    qed
    with True Cons.IH [of True] show ?thesis by simp
  next
    case False
    have "no_space_run (c # sub_spaces_from False cs)"
    proof (cases "sub_spaces_from False cs")
      case Nil
      then show ?thesis by simp
    next
      case (Cons a as)
      with False Cons.IH [of False] show ?thesis by simp
    qed
    with False show ?thesis by simp
  qed
qed

lemma sub_spaces_from_last:
  "s \<noteq> [] \<Longrightarrow> \<not> isspace (last s) \<Longrightarrow>
   sub_spaces_from r s \<noteq> [] \<and> last (sub_spaces_from r s) = last s"
  by (induction s arbitrary: r) (auto split: if_splits)

lemma trimmed_sub_spaces: "trimmed s \<Longrightarrow> trimmed (sub_spaces s)"
proof (cases s)
  case Nil
  then show ?thesis by (simp add: trimmed_def sub_spaces_def)
next
  case (Cons c cs)
  assume "trimmed s"
  with Cons have h: "\<not> isspace c" and l: "\<not> isspace (last s)" by (simp_all add: trimmed_def)
  from Cons h have "hd (sub_spaces s) = c" by (simp add: sub_spaces_def)
  moreover from Cons l have "sub_spaces s \<noteq> [] \<and> last (sub_spaces s) = last s"
    unfolding sub_spaces_def by (intro sub_spaces_from_last) simp_all
  ultimately show ?thesis using h l by (simp add: trimmed_def)
qed


lemma isspace_blank: "isspace (CHR '' '')" and isspace_newline: "isspace (CHR 0x0A)"
  by (simp_all add: isspace_def)

lemma ws_words_from_newlines:
  "ws_words_from w (map (\<lambda>c. if c = CHR 0x0A then CHR '' '' else c) s) = ws_words_from w s"
  by (induction s arbitrary: w) (auto simp: isspace_blank isspace_newline)

lemma ws_words_from_spaces:
  "\<forall>c\<in>set ys. isspace c \<Longrightarrow> ws_words_from w ys = (if w = [] then [] else [w])"
  by (induction ys arbitrary: w) auto

lemma ws_words_from_append_spaces:
  "\<forall>c\<in>set ys. isspace c \<Longrightarrow> ws_words_from w (xs @ ys) = ws_words_from w xs"
  by (induction xs arbitrary: w) (simp_all add: ws_words_from_spaces)

lemma ws_words_from_dropWhile:
  "ws_words_from [] (dropWhile isspace s) = ws_words_from [] s"
  by (induction s) simp_all

lemma strip_decompose:
  "dropWhile isspace s = strip s @ rev (takeWhile isspace (rev (dropWhile isspace s)))"
proof -
  let ?u = "dropWhile isspace s"
  have "rev (takeWhile isspace (rev ?u) @ dropWhile isspace (rev ?u)) = rev (rev ?u)"
    by (simp only: takeWhile_dropWhile_id)
  then have "rev (dropWhile isspace (rev ?u)) @ rev (takeWhile isspace (rev ?u)) = ?u"
    by (simp only: rev_append rev_rev_ident)
  then show ?thesis by (simp only: strip_def)
qed

lemma ws_words_strip: "ws_words (strip s) = ws_words s"
proof -
  let ?tail = "rev (takeWhile isspace (rev (dropWhile isspace s)))"
  have sp: "\<forall>c\<in>set ?tail. isspace c" by (auto dest: set_takeWhileD)
  have "ws_words s = ws_words_from [] (dropWhile isspace s)"
    by (simp add: ws_words_def ws_words_from_dropWhile)
  also have "\<dots> = ws_words_from [] (strip s @ ?tail)"
    using strip_decompose [of s] by simp
  also have "\<dots> = ws_words_from [] (strip s)"
    using sp by (rule ws_words_from_append_spaces)
  finally show ?thesis by (simp add: ws_words_def)
qed

lemma ws_words_from_nonempty:
  "w \<noteq> [] \<or> (\<exists>c\<in>set s. \<not> isspace c) \<Longrightarrow> ws_words_from w s \<noteq> []"
  by (induction s arbitrary: w) (auto split: if_splits)

lemma join_Cons: "ws \<noteq> [] \<Longrightarrow> join sep (w # ws) = w @ sep @ join sep ws"
  by (cases ws) simp_all

lemma no_trailing_Cons: "no_trailing (c # cs) \<Longrightarrow> no_trailing cs"
  by (auto simp: no_trailing_def split: if_splits)

lemma no_trailing_has_word: "no_trailing (c # cs) \<Longrightarrow> isspace c \<Longrightarrow> \<exists>x\<in>set cs. \<not> isspace x"
  by (cases cs rule: rev_cases) (auto simp: no_trailing_def)

lemma sub_spaces_words:
  "no_trailing t \<Longrightarrow>
   (\<forall>w. w \<noteq> [] \<or> t = [] \<or> \<not> isspace (hd t) \<longrightarrow>
        w @ sub_spaces_from False t = join '' '' (ws_words_from w t))
   \<and> sub_spaces_from True t = join '' '' (ws_words_from [] t)"
proof (induction t)
  case Nil
  show ?case by simp
next
  case (Cons c cs)
  from Cons.prems have nt: "no_trailing cs" by (rule no_trailing_Cons)
  note ih = Cons.IH [OF nt]
  show ?case
  proof (cases "isspace c")
    case True
    from Cons.prems True have "\<exists>x\<in>set cs. \<not> isspace x" by (rule no_trailing_has_word)
    then have ne: "ws_words_from [] cs \<noteq> []" by (simp add: ws_words_from_nonempty)
    from ih have b: "sub_spaces_from True cs = join '' '' (ws_words_from [] cs)" by simp
    show ?thesis using True b ne by (simp add: join_Cons)
  next
    case False
    from ih have A: "\<And>w. w \<noteq> [] \<or> cs = [] \<or> \<not> isspace (hd cs) \<Longrightarrow>
        w @ sub_spaces_from False cs = join '' '' (ws_words_from w cs)"
      by blast
    have a: "(w @ [c]) @ sub_spaces_from False cs = join '' '' (ws_words_from (w @ [c]) cs)" for w
      by (rule A) simp
    show ?thesis using False a a [of "[]"] by simp
  qed
qed

lemma trimmed_no_trailing: "trimmed t \<Longrightarrow> no_trailing t"
  by (auto simp: trimmed_def no_trailing_def)

lemma sub_spaces_trimmed: "trimmed t \<Longrightarrow> sub_spaces t = join '' '' (ws_words t)"
proof -
  assume t: "trimmed t"
  then have "t = [] \<or> \<not> isspace (hd t)" by (auto simp: trimmed_def)
  with sub_spaces_words [OF trimmed_no_trailing [OF t]]
  have "[] @ sub_spaces_from False t = join '' '' (ws_words_from [] t)" by blast
  then show ?thesis by (simp add: sub_spaces_def ws_words_def)
qed

lemma normalise_words:
  "sub_spaces (strip (map (\<lambda>c. if c = CHR 0x0A then CHR '' '' else c) g)) = join '' '' (ws_words g)"
proof -
  let ?n = "map (\<lambda>c. if c = CHR 0x0A then CHR '' '' else c) g"
  have "sub_spaces (strip ?n) = join '' '' (ws_words (strip ?n))"
    by (rule sub_spaces_trimmed) (rule trimmed_strip)
  also have "ws_words (strip ?n) = ws_words ?n" by (rule ws_words_strip)
  also have "ws_words ?n = ws_words g" by (simp add: ws_words_def ws_words_from_newlines)
  finally show ?thesis .
qed


lemma title_match_position:
  "title_match pre g e \<longleftrightarrow>
     length pre \<le> length e \<and> pre = take (length pre) e
     \<and> match_title_here (drop (length pre) e) = Some g"
proof
  assume "title_match pre g e"
  then obtain suf where e: "e = pre @ suf" and m: "title_match [] g suf"
    using title_match_prefix by blast
  from m have "match_title_here suf = Some g" by (rule match_title_here_complete)
  with e show "length pre \<le> length e \<and> pre = take (length pre) e
     \<and> match_title_here (drop (length pre) e) = Some g"
    by simp
next
  assume a: "length pre \<le> length e \<and> pre = take (length pre) e
     \<and> match_title_here (drop (length pre) e) = Some g"
  then have "title_match [] g (drop (length pre) e)" by (simp add: match_title_here_sound)
  moreover from a have "e = pre @ drop (length pre) e"
    by (metis append_take_drop_id)
  ultimately show "title_match pre g e" using title_match_prefix by blast
qed

lemma match_free_leftmost:
  assumes "match_free n e" and "title_match pre g e"
  shows "n \<le> length pre"
proof (rule ccontr)
  assume "\<not> n \<le> length pre"
  then have "length pre \<in> set [0..<n]" by simp
  with assms(1) have "match_title_here (drop (length pre) e) = None"
    unfolding match_free_def list_all_iff by blast
  with assms(2) show False by (simp add: title_match_position)
qed

lemma fields_only_all:
  assumes "fields_only e" and "title_match pre g e"
  shows "title_field pre g e"
proof -
  from assms(2) have p: "length pre \<le> length e" "pre = take (length pre) e"
    "match_title_here (drop (length pre) e) = Some g"
    by (simp_all add: title_match_position)
  from p(1) have "length pre \<in> set [0..<Suc (length e)]" by auto
  with assms(1) have "case match_title_here (drop (length pre) e) of
                      None \<Rightarrow> True
                    | Some g \<Rightarrow> field_start (take (length pre) e) \<and> \<not> is_close (hd g)"
    unfolding fields_only_def list_all_iff by blast
  with p(2,3) have "field_start pre \<and> \<not> is_close (hd g)" by simp
  with assms(2) show ?thesis by (simp add: title_field_def)
qed

lemma leftmost_match_extracted:
  assumes m: "title_match pre g e"
    and left: "\<forall>pre' g'. title_match pre' g' e \<longrightarrow> length pre \<le> length pre'"
  shows "extract_title e = Some (join '' '' (ws_words g))"
proof -
  have "search_title e \<noteq> None"
    using m search_title_None by blast
  then obtain g0 where g0: "search_title e = Some g0" by blast
  from search_title_Some [OF g0] obtain pre0 where m0: "title_match pre0 g0 e"
    and least: "\<forall>pre' g'. title_match pre' g' e \<longrightarrow>
                  length pre0 \<le> length pre' \<and> (pre' = pre0 \<longrightarrow> g' = g0)"
    by (elim exE conjE)
  from least m have l1: "length pre0 \<le> length pre" by blast
  from left m0 have l2: "length pre \<le> length pre0" by blast
  from m have "pre = take (length pre) e" by (simp add: title_match_position)
  moreover from m0 have "pre0 = take (length pre0) e" by (simp add: title_match_position)
  ultimately have "pre = pre0" using l1 l2 by simp
  with least m have "g = g0" by blast
  with g0 show ?thesis by (simp add: extract_title_def normalise_words)
qed

text \<open>
  C5, as amended: where the leftmost match of the pattern in the entry is a title
  field (the name \<^verbatim>\<open>title\<close> in any case, not the end of a longer name, with a value
  that is not empty), the extractor returns the value of that field, the text between
  the opening brace or double quote and the first closing brace or double quote behind
  it, whichever comes first and whether or not it pairs with the opener, as its words
  separated by single blanks: line feeds count as white space, runs of white space
  become one blank, white space at the ends is dropped. An entry that has a title
  field never gives an absent value; where the pattern matches at title fields only,
  the value is absent if and only if the entry has no title field. A returned title
  has no white space at its ends, no two white space characters side by side and no
  white space but the blank.
\<close>

theorem title_extracted:
  "(title_field pre g entry
      \<and> (\<forall>pre' g'. title_match pre' g' entry \<longrightarrow> length pre \<le> length pre') \<longrightarrow>
        extract_title entry = Some (join '' '' (ws_words g)))
   \<and> ((\<exists>pre g. title_field pre g entry) \<longrightarrow> extract_title entry \<noteq> None)
   \<and> ((\<forall>pre g. title_match pre g entry \<longrightarrow> title_field pre g entry) \<longrightarrow>
        (extract_title entry = None \<longleftrightarrow> \<not> (\<exists>pre g. title_field pre g entry)))
   \<and> (\<forall>t. extract_title entry = Some t \<longrightarrow>
        trimmed t \<and> no_space_run t \<and> (\<forall>c\<in>set t. isspace c \<longrightarrow> c = CHR '' ''))"
proof (intro conjI allI impI)
  assume "title_field pre g entry
      \<and> (\<forall>pre' g'. title_match pre' g' entry \<longrightarrow> length pre \<le> length pre')"
  then have m: "title_match pre g entry"
    and left: "\<forall>pre' g'. title_match pre' g' entry \<longrightarrow> length pre \<le> length pre'"
    by (simp_all add: title_field_def)
  from m left show "extract_title entry = Some (join '' '' (ws_words g))"
    by (rule leftmost_match_extracted)
next
  assume "\<exists>pre g. title_field pre g entry"
  then obtain pre g where "title_match pre g entry" by (auto simp: title_field_def)
  then have "search_title entry \<noteq> None" using search_title_None by blast
  then show "extract_title entry \<noteq> None"
    by (auto simp: extract_title_def)
next
  assume only: "\<forall>pre g. title_match pre g entry \<longrightarrow> title_field pre g entry"
  show "extract_title entry = None \<longleftrightarrow> \<not> (\<exists>pre g. title_field pre g entry)"
  proof
    assume "extract_title entry = None"
    then have "search_title entry = None"
      by (simp add: extract_title_def split: option.splits)
    then have "\<And>pre g. \<not> title_match pre g entry" by (rule search_title_None)
    then show "\<not> (\<exists>pre g. title_field pre g entry)" by (simp add: title_field_def)
  next
    assume no: "\<not> (\<exists>pre g. title_field pre g entry)"
    show "extract_title entry = None"
    proof (cases "search_title entry")
      case None
      then show ?thesis by (simp add: extract_title_def)
    next
      case (Some g0)
      from search_title_Some [OF this] obtain pre0 where "title_match pre0 g0 entry" by blast
      with only no show ?thesis by blast
    qed
  qed
next
  fix t assume t: "extract_title entry = Some t"
  then obtain g where tg: "t = sub_spaces (strip (map (\<lambda>c. if c = CHR 0x0A then CHR '' '' else c) g))"
    by (auto simp: extract_title_def split: option.splits)
  show "trimmed t" unfolding tg by (intro trimmed_sub_spaces trimmed_strip)
  show "no_space_run t" unfolding tg sub_spaces_def by (rule sub_spaces_from_run)
  show "\<forall>c\<in>set t. isspace c \<longrightarrow> c = CHR '' ''"
    unfolding tg sub_spaces_def using sub_spaces_from_blank by blast
qed


theorem title_extracted_witness:
  "title_field ''@a{x, '' (''Semantic  Web'' @ [CHR 0x0A] @ ''  Mapping '')
     (''@a{x, TITLE = {Semantic  Web'' @ [CHR 0x0A] @ ''  Mapping }, year=2020}'')
   \<and> ws_words (''Semantic  Web'' @ [CHR 0x0A] @ ''  Mapping '') = [''Semantic'', ''Web'', ''Mapping'']
   \<and> extract_title (''@a{x, TITLE = {Semantic  Web'' @ [CHR 0x0A] @ ''  Mapping }, year=2020}'')
       = Some ''Semantic Web Mapping''
   \<and> trimmed ''Semantic Web Mapping'' \<and> no_space_run ''Semantic Web Mapping''
   \<and> extract_title ''@misc{x, year=2020}'' = None
   \<and> \<not> (\<exists>pre g. title_field pre g ''@misc{x, year=2020}'')"
proof -
  let ?p = "''@a{x, ''"
  let ?g = "''Semantic  Web'' @ [CHR 0x0A] @ ''  Mapping ''"
  let ?e = "''@a{x, TITLE = {Semantic  Web'' @ [CHR 0x0A] @ ''  Mapping }, year=2020}''"
  let ?e2 = "''@misc{x, year=2020}''"
  have pos: "length ?p \<le> length ?e \<and> ?p = take (length ?p) ?e
     \<and> match_title_here (drop (length ?p) ?e) = Some ?g"
    by code_simp
  then have m: "title_match ?p ?g ?e" by (simp only: title_match_position)
  have b: "field_start ?p \<and> \<not> is_close (hd ?g)" by code_simp
  from m b have f: "title_field ?p ?g ?e" by (simp only: title_field_def simp_thms)
  have "match_free (length ?p) ?e" by code_simp
  then have left: "\<forall>pre' g'. title_match pre' g' ?e \<longrightarrow> length ?p \<le> length pre'"
    using match_free_leftmost by blast
  have "fields_only ?e" by code_simp
  then have only: "\<forall>pre g. title_match pre g ?e \<longrightarrow> title_field pre g ?e"
    using fields_only_all by blast
  have "fields_only ?e2" by code_simp
  then have only2: "\<forall>pre g. title_match pre g ?e2 \<longrightarrow> title_field pre g ?e2"
    using fields_only_all by blast
  have w: "ws_words ?g = [''Semantic'', ''Web'', ''Mapping'']" by code_simp
  have j: "join '' '' [''Semantic'', ''Web'', ''Mapping''] = ''Semantic Web Mapping''" by code_simp
  have n: "extract_title ?e2 = None" by code_simp
  note T = title_extracted [of ?p ?g ?e]
  from T f left have "extract_title ?e = Some (join '' '' (ws_words ?g))" by blast
  then have x: "extract_title ?e = Some ''Semantic Web Mapping''" by (simp only: w j)
  with T have d: "trimmed ''Semantic Web Mapping'' \<and> no_space_run ''Semantic Web Mapping''"
    by blast
  from title_extracted [of _ _ ?e2] only2 n have "\<not> (\<exists>pre g. title_field pre g ?e2)"
    by blast
  with f w x d n show ?thesis by (intro conjI) (simp_all only: simp_thms)
qed


text \<open>
  That statement leaves two inputs aside, on which the pattern matches at a place that
  is no title field: the name \<^verbatim>\<open>booktitle\<close> before the title, and an empty value.
\<close>

lemma booktitle_taken_for_title:
  "extract_title ''@inproceedings{k, booktitle={Proc. of X}, title={Semantic Web}}'' = Some ''Proc. of X''"
  by code_simp

lemma empty_value_runs_on:
  "extract_title ''@a{x, title={}, year={2020}}'' = Some ''}, year={2020''"
  by code_simp

text \<open>
  The claim as written fails on a braced title that contains a quoted word: the
  extractor stops at the first double quote, the value between the matching braces
  is longer.
\<close>

theorem title_delimiters_counterexample:
  "extract_title (''@a{x, title={The '' @ [CHR 0x22] @ ''Semantic'' @ [CHR 0x22] @ '' Web}, year=2020}'')
     = Some ''The''
   \<and> title_field_paired (''@a{x, title={The '' @ [CHR 0x22] @ ''Semantic'' @ [CHR 0x22] @ '' Web}, year=2020}'')
     = Some (''The '' @ [CHR 0x22] @ ''Semantic'' @ [CHR 0x22] @ '' Web'')"
  by code_simp


section \<open>The keyword list of one publication\<close>

text \<open>
  C1, first half: the phrase keywords of a publication are not free of duplicates. The
  phrase list holds the plural next to the singular, the singular is a block of the
  plural, and both are normalised to one keyword: the title \<^verbatim>\<open>Knowledge Graphs\<close> gets
  the keyword \<^verbatim>\<open>Knowledge Graphs\<close> twice.
\<close>

theorem phrase_keyword_twice:
  "build_publication_keywords [Some ''Knowledge Graphs''] =
     [\<lparr>title = ''Knowledge Graphs'', keywords_list = [''Knowledge Graphs'', ''Knowledge Graphs'']\<rparr>]"
  by code_simp

text \<open>
  The second half of that claim holds: no token keyword of a title is, lower-cased,
  the lower-cased form of one of the phrase keywords it was tokenised against, and
  the token keywords are ascending without repetition.
\<close>

lemma token_keywords_avoid_phrases:
  "k \<in> set (tokenize_remainder t used) \<Longrightarrow> lower k \<notin> set (map lower used)"
  by (simp add: tokenize_remainder_def token_adds_def)

lemma token_keywords_sorted_distinct:
  "sorted (tokenize_remainder t used) \<and> distinct (tokenize_remainder t used)"
  by (simp add: tokenize_remainder_def)

text \<open>
  C3: on the one-line input of the scenario the run yields one publication with the
  title \<^verbatim>\<open>Knowledge Graphs and Ontology Mapping\<close>; its keyword list is
  \<^verbatim>\<open>Knowledge Graphs\<close>, \<^verbatim>\<open>Knowledge Graphs\<close>, \<^verbatim>\<open>Ontology\<close>, \<^verbatim>\<open>Mapping\<close>, the first keyword
  standing twice, and no token keyword follows.
\<close>

theorem scenario_knowledge_graphs:
  "main \<lparr>bib = ''Marcos.bib'', out = ''data/publications_keywords.json'', min_freq = 1\<rparr>
     (Some ''@article{a1, title={Knowledge Graphs and Ontology Mapping}, year=2020}'') =
   Inr \<lparr>publications =
          [\<lparr>title = ''Knowledge Graphs and Ontology Mapping'',
            keywords_list = [''Knowledge Graphs'', ''Knowledge Graphs'', ''Ontology'', ''Mapping'']\<rparr>],
        generatedFrom = ''Marcos.bib'', totalPublications = 1\<rparr>"
  by code_simp

section \<open>What the aggregator counts\<close>

lemma count_keyword_apply:
  "count_keyword x freq k = (if k = x then Some (freq_get freq x + 1) else freq k)"
  by (simp add: count_keyword_def)

lemma freq_get_count_keyword:
  "freq_get (count_keyword x freq) k = (if k = x then freq_get freq x + 1 else freq_get freq k)"
  by (simp add: count_keyword_def freq_get_def)

lemma fold_count_keyword:
  "fold count_keyword ks freq k =
     (if count_list ks k = 0 then freq k else Some (freq_get freq k + int (count_list ks k)))"
proof (induction ks arbitrary: freq)
  case Nil
  show ?case by simp
next
  case (Cons x xs)
  have "fold count_keyword (x # xs) freq k = fold count_keyword xs (count_keyword x freq) k"
    by simp
  also have "\<dots> = (if count_list xs k = 0 then count_keyword x freq k
                    else Some (freq_get (count_keyword x freq) k + int (count_list xs k)))"
    by (rule Cons.IH)
  also have "\<dots> = (if count_list (x # xs) k = 0 then freq k
                    else Some (freq_get freq k + int (count_list (x # xs) k)))"
    by (simp add: count_keyword_apply freq_get_count_keyword)
  finally show ?case .
qed

lemma fold_pubs_count:
  "fold (\<lambda>p freq. fold count_keyword (keywords_list p) freq) pubs freq k =
     (if occurrences k pubs = 0 then freq k else Some (freq_get freq k + int (occurrences k pubs)))"
proof (induction pubs arbitrary: freq)
  case Nil
  show ?case by (simp add: occurrences_def)
next
  case (Cons p ps)
  show ?case
    using Cons.IH [of "fold count_keyword (keywords_list p) freq"]
    by (simp add: occurrences_def fold_count_keyword freq_get_def)
qed

lemma aggregate_occurrences:
  "aggregate_keyword_freq pubs k =
     (if occurrences k pubs = 0 then None else Some (int (occurrences k pubs)))"
  by (simp add: aggregate_keyword_freq_def fold_pubs_count freq_get_def)

lemma count_list_distinct:
  "distinct xs \<Longrightarrow> count_list xs x = (if x \<in> set xs then 1 else 0)"
  by (induction xs) auto

lemma occurrences_distinct:
  "(\<forall>p\<in>set pubs. distinct (keywords_list p)) \<Longrightarrow> occurrences k pubs = publications_with k pubs"
  by (induction pubs) (auto simp: occurrences_def publications_with_def count_list_distinct)

text \<open>
  The value of the frequency map at a keyword is the number of occurrences of the
  keyword in all the keyword lists; over keyword lists that hold no keyword twice it
  is the number of publications whose keyword list contains the keyword.
\<close>

lemma aggregate_counts_occurrences:
  "aggregate_keyword_freq pubs k =
     (if occurrences k pubs = 0 then None else Some (int (occurrences k pubs)))
   \<and> ((\<forall>p\<in>set pubs. distinct (keywords_list p)) \<longrightarrow> occurrences k pubs = publications_with k pubs)"
  using aggregate_occurrences occurrences_distinct by blast

text \<open>
  C2: the frequency map does not hold the number of publications that contain a
  keyword. On the entry with the title \<^verbatim>\<open>Knowledge Graphs\<close> the run builds one
  publication, with the keyword \<^verbatim>\<open>Knowledge Graphs\<close> twice in its list, and the map
  says 2 for it: one publication contains the keyword.
\<close>

theorem aggregate_counts_twice:
  "publications_of ''@article{a1, title={Knowledge Graphs}, year=2020}'' =
     [\<lparr>title = ''Knowledge Graphs'', keywords_list = [''Knowledge Graphs'', ''Knowledge Graphs'']\<rparr>]
   \<and> aggregate_keyword_freq (publications_of ''@article{a1, title={Knowledge Graphs}, year=2020}'')
       ''Knowledge Graphs'' = Some 2
   \<and> publications_with ''Knowledge Graphs''
       (publications_of ''@article{a1, title={Knowledge Graphs}, year=2020}'') = 1"
  by code_simp

section \<open>The payload\<close>

lemma filter_keywords_length: "length (filter_keywords m freq pubs) = length pubs"
  by (simp add: filter_keywords_def)

lemma filter_keywords_subset:
  "p \<in> set (filter_keywords m freq pubs) \<Longrightarrow> k \<in> set (keywords_list p) \<Longrightarrow>
   \<exists>q\<in>set pubs. k \<in> set (keywords_list q)"
  by (auto simp: filter_keywords_def split: if_splits)

lemma count_list_pos: "x \<in> set xs \<Longrightarrow> 0 < count_list xs x"
  by (induction xs) auto

lemma occurrences_pos:
  "q \<in> set pubs \<Longrightarrow> k \<in> set (keywords_list q) \<Longrightarrow> 0 < occurrences k pubs"
proof (induction pubs)
  case Nil
  then show ?case by simp
next
  case (Cons p ps)
  show ?case
  proof (cases "q = p")
    case True
    with Cons.prems have "0 < count_list (keywords_list p) k"
      by (simp add: count_list_pos)
    then show ?thesis by (simp add: occurrences_def)
  next
    case False
    with Cons have "0 < occurrences k ps" by simp
    then show ?thesis by (simp add: occurrences_def)
  qed
qed

text \<open>
  C6: whatever the input and the threshold, the field \<^verbatim>\<open>totalPublications\<close> of the
  payload is the length of its list of publications, and every keyword of every
  publication of the payload is a key of the frequency map that the run aggregated,
  with a count of at least 1.
\<close>

theorem payload_round_trip:
  assumes "main a (Some text) = Inr d"
  shows "totalPublications d = int (length (publications d))
       \<and> (\<forall>p\<in>set (publications d). \<forall>k\<in>set (keywords_list p).
            \<exists>n\<ge>1. aggregate_keyword_freq (publications_of text) k = Some n)"
proof -
  let ?pubs = "publications_of text"
  let ?freq = "aggregate_keyword_freq ?pubs"
  have pubs: "publications d = filter_keywords (min_freq a) ?freq ?pubs"
    using assms by (auto simp: main_def Let_def)
  have total: "totalPublications d = int (length (publications d))"
    using assms by (auto simp: main_def Let_def)
  have keys: "\<exists>n\<ge>1. ?freq k = Some n"
    if "p \<in> set (publications d)" and "k \<in> set (keywords_list p)" for p k
  proof -
    from that pubs have "p \<in> set (filter_keywords (min_freq a) ?freq ?pubs)" by simp
    with that(2) obtain q where "q \<in> set ?pubs" "k \<in> set (keywords_list q)"
      using filter_keywords_subset by blast
    then have "0 < occurrences k ?pubs" by (rule occurrences_pos)
    then show ?thesis by (simp add: aggregate_occurrences)
  qed
  from total keys show ?thesis by blast
qed

theorem payload_round_trip_witness:
  "main \<lparr>bib = ''Marcos.bib'', out = ''o.json'', min_freq = 1\<rparr>
        (Some ''@article{a1, title={Semantic Web and Ontology Mapping}, year=2020}'') =
     Inr \<lparr>publications =
          [\<lparr>title = ''Semantic Web and Ontology Mapping'',
            keywords_list = [''Semantic Web'', ''Ontology'', ''Mapping'']\<rparr>],
        generatedFrom = ''Marcos.bib'', totalPublications = 1\<rparr>
   \<and> (\<exists>n\<ge>1. aggregate_keyword_freq
         (publications_of ''@article{a1, title={Semantic Web and Ontology Mapping}, year=2020}'')
         ''Ontology'' = Some n)"
proof -
  let ?a = "\<lparr>bib = ''Marcos.bib'', out = ''o.json'', min_freq = 1\<rparr>"
  let ?t = "''@article{a1, title={Semantic Web and Ontology Mapping}, year=2020}''"
  have m: "main ?a (Some ?t) = Inr \<lparr>publications =
          [\<lparr>title = ''Semantic Web and Ontology Mapping'',
            keywords_list = [''Semantic Web'', ''Ontology'', ''Mapping'']\<rparr>],
        generatedFrom = ''Marcos.bib'', totalPublications = 1\<rparr>"
    by code_simp
  from payload_round_trip [OF m] m show ?thesis by simp
qed

lemma filter_keywords_nth:
  "i < length pubs \<Longrightarrow>
   keywords_list (filter_keywords m freq pubs ! i) =
     (if m > 1 then filter (\<lambda>k. freq_get freq k \<ge> m) (keywords_list (pubs ! i)) else keywords_list (pubs ! i))"
  by (simp add: filter_keywords_def)

lemma filter_keywords_title:
  "map title (filter_keywords m freq pubs) = map title pubs"
  by (simp add: filter_keywords_def)

text \<open>
  C7: two runs on one input with thresholds \<open>T1 < T2\<close> give the same publications, one
  by one, and the keywords that a publication keeps under \<open>T2\<close> are among those it
  keeps under \<open>T1\<close>.
\<close>

theorem threshold_monotone:
  assumes "main a1 (Some text) = Inr d1" and "main a2 (Some text) = Inr d2"
    and "min_freq a1 < min_freq a2"
  shows "length (publications d2) = length (publications d1)
       \<and> map title (publications d2) = map title (publications d1)
       \<and> (\<forall>i<length (publications d1).
            set (keywords_list (publications d2 ! i)) \<subseteq> set (keywords_list (publications d1 ! i)))"
proof -
  let ?pubs = "publications_of text"
  let ?freq = "aggregate_keyword_freq ?pubs"
  have d1: "publications d1 = filter_keywords (min_freq a1) ?freq ?pubs"
    using assms(1) by (auto simp: main_def Let_def)
  have d2: "publications d2 = filter_keywords (min_freq a2) ?freq ?pubs"
    using assms(2) by (auto simp: main_def Let_def)
  have len: "length (publications d2) = length (publications d1)"
    by (simp add: d1 d2 filter_keywords_length)
  have tit: "map title (publications d2) = map title (publications d1)"
    by (simp add: d1 d2 filter_keywords_title)
  have sub: "set (keywords_list (publications d2 ! i)) \<subseteq> set (keywords_list (publications d1 ! i))"
    if "i < length (publications d1)" for i
  proof -
    from that have i: "i < length ?pubs" by (simp add: d1 filter_keywords_length)
    show ?thesis
      using assms(3) by (auto simp: d1 d2 filter_keywords_nth [OF i])
  qed
  from len tit sub show ?thesis by blast
qed


theorem threshold_monotone_witness:
  "min_freq \<lparr>bib = ''b'', out = ''o'', min_freq = 1\<rparr> < min_freq \<lparr>bib = ''b'', out = ''o'', min_freq = 2\<rparr>
   \<and> main \<lparr>bib = ''b'', out = ''o'', min_freq = 1\<rparr>
       (Some (''@a{x, title={Semantic Web Ontology}}'' @ [CHR 0x0A] @ ''@b{y, title={Semantic Web}}'')) =
     Inr \<lparr>publications =
          [\<lparr>title = ''Semantic Web Ontology'', keywords_list = [''Semantic Web'', ''Ontology'']\<rparr>,
           \<lparr>title = ''Semantic Web'', keywords_list = [''Semantic Web'']\<rparr>],
        generatedFrom = ''b'', totalPublications = 2\<rparr>
   \<and> main \<lparr>bib = ''b'', out = ''o'', min_freq = 2\<rparr>
       (Some (''@a{x, title={Semantic Web Ontology}}'' @ [CHR 0x0A] @ ''@b{y, title={Semantic Web}}'')) =
     Inr \<lparr>publications =
          [\<lparr>title = ''Semantic Web Ontology'', keywords_list = [''Semantic Web'']\<rparr>,
           \<lparr>title = ''Semantic Web'', keywords_list = [''Semantic Web'']\<rparr>],
        generatedFrom = ''b'', totalPublications = 2\<rparr>
   \<and> set [''Semantic Web''] \<subseteq> set [''Semantic Web'', ''Ontology'']"
proof -
  let ?t = "''@a{x, title={Semantic Web Ontology}}'' @ [CHR 0x0A] @ ''@b{y, title={Semantic Web}}''"
  let ?a1 = "\<lparr>bib = ''b'', out = ''o'', min_freq = 1\<rparr>"
  let ?a2 = "\<lparr>bib = ''b'', out = ''o'', min_freq = 2\<rparr>"
  have m1: "main ?a1 (Some ?t) = Inr \<lparr>publications =
          [\<lparr>title = ''Semantic Web Ontology'', keywords_list = [''Semantic Web'', ''Ontology'']\<rparr>,
           \<lparr>title = ''Semantic Web'', keywords_list = [''Semantic Web'']\<rparr>],
        generatedFrom = ''b'', totalPublications = 2\<rparr>"
    by code_simp
  have m2: "main ?a2 (Some ?t) = Inr \<lparr>publications =
          [\<lparr>title = ''Semantic Web Ontology'', keywords_list = [''Semantic Web'']\<rparr>,
           \<lparr>title = ''Semantic Web'', keywords_list = [''Semantic Web'']\<rparr>],
        generatedFrom = ''b'', totalPublications = 2\<rparr>"
    by code_simp
  have lt: "min_freq ?a1 < min_freq ?a2" by simp
  from threshold_monotone [OF m1 m2 lt] have
    "set (keywords_list (publications \<lparr>publications =
          [\<lparr>title = ''Semantic Web Ontology'', keywords_list = [''Semantic Web'']\<rparr>,
           \<lparr>title = ''Semantic Web'', keywords_list = [''Semantic Web'']\<rparr>],
        generatedFrom = ''b'', totalPublications = 2\<rparr> ! 0))
     \<subseteq> set (keywords_list (publications \<lparr>publications =
          [\<lparr>title = ''Semantic Web Ontology'', keywords_list = [''Semantic Web'', ''Ontology'']\<rparr>,
           \<lparr>title = ''Semantic Web'', keywords_list = [''Semantic Web'']\<rparr>],
        generatedFrom = ''b'', totalPublications = 2\<rparr> ! 0))"
    by simp
  then have "set [''Semantic Web''] \<subseteq> set [''Semantic Web'', ''Ontology'']" by simp
  with m1 m2 lt show ?thesis by blast
qed

lemma build_publication_keywords_append:
  "build_publication_keywords (ts1 @ ts2) = build_publication_keywords ts1 @ build_publication_keywords ts2"
  by (induction ts1 rule: build_publication_keywords.induct) (simp_all add: Let_def)

text \<open>
  C9: an entry without an extractable title is passed over. The run ends with a
  payload, no error, and the payload is the one that the other entries alone give:
  the entry adds nothing to the publications and nothing to the count.
\<close>

theorem untitled_entry_skipped:
  assumes "iter_bib_entries text = es1 @ e # es2" and "extract_title e = None"
  shows "main a (Some text) =
     Inr (let pubs = build_publication_keywords (map extract_title (es1 @ es2));
              pubs1 = filter_keywords (min_freq a) (aggregate_keyword_freq pubs) pubs
          in \<lparr>publications = pubs1, generatedFrom = path_str (bib a), totalPublications = int (length pubs1)\<rparr>)"
proof -
  have "publications_of text = build_publication_keywords (map extract_title (es1 @ es2))"
    using assms by (simp add: publications_of_def build_publication_keywords_append)
  then show ?thesis by (simp add: main_def Let_def)
qed

theorem untitled_entry_skipped_witness:
  "iter_bib_entries (''@misc{x, year=2020}'' @ [CHR 0x0A] @ ''@b{y, title={Semantic Web}}'') =
     [] @ ''@misc{x, year=2020}'' # [''@b{y, title={Semantic Web}}'']
   \<and> extract_title ''@misc{x, year=2020}'' = None
   \<and> main \<lparr>bib = ''b'', out = ''o'', min_freq = 1\<rparr>
       (Some (''@misc{x, year=2020}'' @ [CHR 0x0A] @ ''@b{y, title={Semantic Web}}'')) =
     Inr \<lparr>publications = [\<lparr>title = ''Semantic Web'', keywords_list = [''Semantic Web'']\<rparr>],
        generatedFrom = ''b'', totalPublications = 1\<rparr>"
proof -
  have e: "iter_bib_entries (''@misc{x, year=2020}'' @ [CHR 0x0A] @ ''@b{y, title={Semantic Web}}'') =
     [] @ ''@misc{x, year=2020}'' # [''@b{y, title={Semantic Web}}'']"
    by code_simp
  have n: "extract_title ''@misc{x, year=2020}'' = None"
    by code_simp
  have r: "(let pubs = build_publication_keywords (map extract_title ([] @ [''@b{y, title={Semantic Web}}'']));
              pubs1 = filter_keywords 1 (aggregate_keyword_freq pubs) pubs
          in \<lparr>publications = pubs1, generatedFrom = path_str ''b'', totalPublications = int (length pubs1)\<rparr>) =
       \<lparr>publications = [\<lparr>title = ''Semantic Web'', keywords_list = [''Semantic Web'']\<rparr>],
        generatedFrom = ''b'', totalPublications = 1\<rparr>"
    by code_simp
  from untitled_entry_skipped [OF e n, of "\<lparr>bib = ''b'', out = ''o'', min_freq = 1\<rparr>"] r e n
  show ?thesis by simp
qed


section \<open>Determinism of the run\<close>

lemma sort_set_iteration:
  assumes "set_iteration enum"
  shows "sort (enum (set xs)) = sorted_list_of_set (set xs)"
proof -
  from assms have s: "set (enum (set xs)) = set xs" and d: "distinct (enum (set xs))"
    by (simp_all add: set_iteration_def)
  have "sorted_list_of_set (set (enum (set xs))) = sort (remdups (enum (set xs)))"
    by (rule sorted_list_of_set_sort_remdups)
  with s d show ?thesis by (simp add: distinct_remdups_id)
qed

lemma tokenize_remainder_enum_eq:
  "set_iteration enum \<Longrightarrow> tokenize_remainder_enum enum t u = tokenize_remainder t u"
  by (simp add: tokenize_remainder_enum_def tokenize_remainder_def sort_set_iteration)

lemma build_publication_keywords_enum_eq:
  "set_iteration enum \<Longrightarrow> build_publication_keywords_enum enum ts = build_publication_keywords ts"
  by (induction ts rule: build_publication_keywords.induct)
     (simp_all add: tokenize_remainder_enum_eq)

lemma main_enum_eq: "set_iteration enum \<Longrightarrow> main_enum enum a file = main a file"
  by (cases "file")
     (simp_all add: main_enum_def main_def publications_of_def build_publication_keywords_enum_eq)

lemma phrase_scan_order:
  "subseq (phrase_scan lt) (map (\<lambda>p. NORM_get p (title_case p)) PHRASES)"
  unfolding phrase_scan_def by (rule subseq_map) simp

text \<open>
  C8: two runs on the same input with the same arguments give the same payload,
  whatever the orders in which they iterate their sets: the token keywords are the
  sorted list of the set, ascending and without repetition, and the phrase keywords
  follow the order of the phrase list.
\<close>

theorem run_deterministic:
  assumes "set_iteration enum1" and "set_iteration enum2"
  shows "main_enum enum1 a file = main_enum enum2 a file
       \<and> tokenize_remainder_enum enum1 t u = tokenize_remainder_enum enum2 t u
       \<and> sorted (tokenize_remainder_enum enum1 t u) \<and> distinct (tokenize_remainder_enum enum1 t u)
       \<and> subseq (phrase_scan lt) (map (\<lambda>p. NORM_get p (title_case p)) PHRASES)"
proof -
  have "main_enum enum1 a file = main_enum enum2 a file"
    using assms by (simp add: main_enum_eq)
  moreover have "tokenize_remainder_enum enum1 t u = tokenize_remainder_enum enum2 t u"
    using assms by (simp add: tokenize_remainder_enum_eq)
  moreover have "sorted (tokenize_remainder_enum enum1 t u)"
    by (simp add: tokenize_remainder_enum_def)
  moreover have "distinct (tokenize_remainder_enum enum1 t u)"
    using assms(1) by (simp add: tokenize_remainder_enum_def set_iteration_def)
  ultimately show ?thesis using phrase_scan_order by blast
qed

theorem run_deterministic_witness:
  "set_iteration sorted_list_of_set \<and> set_iteration (\<lambda>S. rev (sorted_list_of_set S))
   \<and> main_enum sorted_list_of_set \<lparr>bib = ''b'', out = ''o'', min_freq = 1\<rparr>
        (Some ''@a{x, title={Zebra Healthcare Ontologies}}'') =
      main_enum (\<lambda>S. rev (sorted_list_of_set S)) \<lparr>bib = ''b'', out = ''o'', min_freq = 1\<rparr>
        (Some ''@a{x, title={Zebra Healthcare Ontologies}}'')
   \<and> main_enum (\<lambda>S. rev (sorted_list_of_set S)) \<lparr>bib = ''b'', out = ''o'', min_freq = 1\<rparr>
        (Some ''@a{x, title={Zebra Healthcare Ontologies}}'') =
      Inr \<lparr>publications = [\<lparr>title = ''Zebra Healthcare Ontologies'',
             keywords_list = [''Ontology'', ''Healthcare'', ''Zebra'']\<rparr>],
           generatedFrom = ''b'', totalPublications = 1\<rparr>"
proof -
  have h1: "set_iteration sorted_list_of_set"
    by (simp add: set_iteration_def)
  have h2: "set_iteration (\<lambda>S. rev (sorted_list_of_set S))"
    by (simp add: set_iteration_def)
  have e: "main_enum (\<lambda>S. rev (sorted_list_of_set S)) \<lparr>bib = ''b'', out = ''o'', min_freq = 1\<rparr>
        (Some ''@a{x, title={Zebra Healthcare Ontologies}}'') =
      Inr \<lparr>publications = [\<lparr>title = ''Zebra Healthcare Ontologies'',
             keywords_list = [''Ontology'', ''Healthcare'', ''Zebra'']\<rparr>],
           generatedFrom = ''b'', totalPublications = 1\<rparr>"
    by code_simp
  from run_deterministic [OF h1 h2] h1 h2 e show ?thesis by simp
qed


end
